theory Spec2Isabelle
  imports Complex_Main
begin

section \<open>JavaScript numbers\<close>

text \<open>
  A JavaScript \<open>number\<close> is an IEEE-754 binary64 value. The page only handles finite
  values far below \<open>2 ^ 1024\<close>, so a number is modelled by the real it denotes, and every
  arithmetic operation computes the exact result and rounds it to the nearest binary64 value,
  ties to even (\<open>fl\<close>). Infinities and NaN do not arise and are not modelled.
\<close>

type_synonym number = real

text \<open>\<open>ilog2 x\<close> is the binary exponent of a positive \<open>x\<close>: \<open>2^e \<le> x < 2^(e+1)\<close>.\<close>

function ilog2 :: "real \<Rightarrow> int" where
  "ilog2 x = (if x \<le> 0 then 0
              else if 2 \<le> x then ilog2 (x / 2) + 1
              else if x < 1 then ilog2 (x * 2) - 1
              else 0)"
  by pat_completeness auto
termination
proof (relation "measure (\<lambda>x. 2 * nat \<lceil>1 / x\<rceil> + nat \<lfloor>x\<rfloor>)", goal_cases)
  case 1
  show ?case by simp
next
  case (2 x)
  then have x: "2 \<le> x" by simp
  have "\<lceil>1 / (x / 2)\<rceil> = 1" "\<lceil>1 / x\<rceil> = 1"
    using x by (simp_all add: ceiling_eq_iff field_simps)
  moreover have "\<lfloor>x / 2\<rfloor> < \<lfloor>x\<rfloor>" "0 \<le> \<lfloor>x / 2\<rfloor>"
    using x by linarith+
  ultimately show ?case using x by simp
next
  case (3 x)
  then have x: "0 < x" "x < 1" by simp_all
  have f: "\<lfloor>x\<rfloor> = 0" using x by (simp add: floor_eq_iff)
  show ?case
  proof (cases "x < 1 / 2")
    case True
    define y where "y = 1 / x"
    have y: "2 < y" using x True by (simp add: y_def field_simps)
    have half: "1 / (x * 2) = y / 2" by (simp add: y_def)
    have c: "y \<le> of_int \<lceil>y\<rceil>" by (rule le_of_int_ceiling)
    have "y / 2 \<le> of_int \<lceil>y\<rceil> - 1" using y c by linarith
    then have "y / 2 \<le> of_int (\<lceil>y\<rceil> - 1)" by simp
    then have "1 / (x * 2) \<le> of_int (\<lceil>1 / x\<rceil> - 1)"
      unfolding half y_def .
    then have "\<lceil>1 / (x * 2)\<rceil> \<le> \<lceil>1 / x\<rceil> - 1" by (rule ceiling_le)
    moreover have "\<lfloor>x * 2\<rfloor> = 0" using x True by (simp add: floor_eq_iff)
    moreover have "0 < \<lceil>1 / (x * 2)\<rceil>" using x by simp
    ultimately show ?thesis using f by simp
  next
    case False
    have "\<lceil>1 / (x * 2)\<rceil> = 1" "\<lceil>1 / x\<rceil> = 2" "\<lfloor>x * 2\<rfloor> = 1"
      using x False by (simp_all add: ceiling_eq_iff floor_eq_iff field_simps)
    then show ?thesis using f by simp
  qed
qed

declare ilog2.simps [simp del]

definition pow2 :: "int \<Rightarrow> real" where
  "pow2 e = (if 0 \<le> e then 2 ^ nat e else 1 / 2 ^ nat (- e))"

definition round_ties_even :: "real \<Rightarrow> int" where
  "round_ties_even y =
     (let f = \<lfloor>y\<rfloor>; r = y - of_int f
      in if r < 1 / 2 then f else if 1 / 2 < r then f + 1 else if even f then f else f + 1)"

text \<open>
  Rounding to binary64: the significand has 53 bits, so the spacing of the values around
  \<open>x\<close> is \<open>2 ^ (ilog2 \<bar>x\<bar> - 52)\<close>, and never less than \<open>2 ^ - 1074\<close> (subnormals).
\<close>

definition fl :: "real \<Rightarrow> number" where
  "fl x = (if x = 0 then 0
           else let u = pow2 (max (ilog2 \<bar>x\<bar> - 52) (- 1074))
                in of_int (round_ties_even (x / u)) * u)"

definition fadd :: "number \<Rightarrow> number \<Rightarrow> number" where
  "fadd x y = fl (x + y)"

definition fsub :: "number \<Rightarrow> number \<Rightarrow> number" where
  "fsub x y = fl (x - y)"

definition fmul :: "number \<Rightarrow> number \<Rightarrow> number" where
  "fmul x y = fl (x * y)"

definition fdiv :: "number \<Rightarrow> number \<Rightarrow> number" where
  "fdiv x y = fl (x / y)"

text \<open>The literal \<open>0.05\<close> of the source: the binary64 value nearest to 5/100.\<close>

definition lit_0_05 :: number where
  "lit_0_05 = fl (5 / 100)"

subsection \<open>Strings of digits\<close>

fun startsWith :: "string \<Rightarrow> string \<Rightarrow> bool" where
  "startsWith s [] = True"
| "startsWith [] (p # ps) = False"
| "startsWith (c # cs) (p # ps) = (c = p \<and> startsWith cs ps)"

fun includes_str :: "string \<Rightarrow> string \<Rightarrow> bool" where
  "includes_str [] p = (p = [])"
| "includes_str (c # cs) p = (startsWith (c # cs) p \<or> includes_str cs p)"

definition endsWith :: "string \<Rightarrow> string \<Rightarrow> bool" where
  "endsWith s p = startsWith (rev s) (rev p)"

definition digit_char :: "nat \<Rightarrow> char" where
  "digit_char d = ''0123456789'' ! d"

definition digit_val :: "char \<Rightarrow> nat" where
  "digit_val c = length (takeWhile (\<lambda>d. d \<noteq> c) ''0123456789'')"

fun digits :: "nat \<Rightarrow> string" where
  "digits n = (if n < 10 then [digit_char n] else digits (n div 10) @ [digit_char (n mod 10)])"

declare digits.simps [simp del]

text \<open>
  \<open>Number.prototype.toFixed(f)\<close>, for \<open>\<bar>x\<bar> < 10^21\<close>: with \<open>n\<close> the integer for which
  \<open>n / 10^f\<close> is closest to \<open>\<bar>x\<bar>\<close> (the larger one when two are equally close), the
  result is the digits of \<open>n\<close>, padded with zeros to \<open>f + 1\<close> digits, with a point before
  the last \<open>f\<close> digits and a minus sign when \<open>x < 0\<close>.
\<close>

definition toFixed_n :: "nat \<Rightarrow> number \<Rightarrow> nat" where
  "toFixed_n f x = nat \<lfloor>\<bar>x\<bar> * 10 ^ f + 1 / 2\<rfloor>"

definition toFixed :: "nat \<Rightarrow> number \<Rightarrow> string" where
  "toFixed f x =
     (let s = (if x < 0 then ''-'' else '''');
          m = digits (toFixed_n f x);
          m = (if f \<noteq> 0 \<and> length m \<le> f
               then replicate (f + 1 - length m) (CHR ''0'') @ m else m);
          k = length m
      in if f = 0 then s @ m else s @ take (k - f) m @ ''.'' @ drop (k - f) m)"

text \<open>
  \<open>Number(s)\<close> for a decimal literal \<open>s\<close> without exponent (the strings \<open>toFixed\<close>
  returns): the exact decimal value, rounded to binary64.
\<close>

definition Number :: "string \<Rightarrow> number" where
  "Number s =
     (let neg = startsWith s ''-'';
          body = (if neg then drop 1 s else s);
          ip = takeWhile (\<lambda>c. c \<noteq> CHR ''.'') body;
          fp = drop (Suc (length ip)) body;
          v = of_nat (foldl (\<lambda>a c. 10 * a + digit_val c) 0 (ip @ fp)) / 10 ^ length fp
      in fl (if neg then - v else v))"

text \<open>
  \<open>Number::toString\<close>, which a template literal applies to a number, for a number \<open>x\<close>
  holding a whole non-negative value \<open>X\<close>. The digits printed are the fewest significant
  digits \<open>s\<close> for which \<open>s \<times> 10 ^ m\<close> still rounds to \<open>x\<close>: \<open>candidate X m\<close> looks for
  such an \<open>s\<close> next to \<open>X / 10 ^ m\<close>, and of two takes the one nearer to \<open>X\<close> (the even
  one when they are equally near); \<open>shortest X m\<close> tries the powers of ten from \<open>10 ^ m\<close>
  down. Below \<open>10 ^ 21\<close> the result is \<open>s\<close> followed by \<open>m\<close> zeros, which for a value below
  \<open>2 ^ 53\<close> are the digits of \<open>X\<close>; from \<open>10 ^ 21\<close> on it is in exponent form.
\<close>

definition candidate :: "nat \<Rightarrow> nat \<Rightarrow> nat option" where
  "candidate X m =
     (let lo = X div 10 ^ m;
          hi = lo + 1;
          denotes = (\<lambda>s. fl (of_nat (s * 10 ^ m)) = of_nat X);
          below = X - lo * 10 ^ m;
          above = hi * 10 ^ m - X
      in if denotes lo \<and> denotes hi
         then Some (if below < above \<or> (below = above \<and> even lo) then lo else hi)
         else if denotes lo then Some lo
         else if denotes hi then Some hi
         else None)"

fun shortest :: "nat \<Rightarrow> nat \<Rightarrow> nat \<times> nat" where
  "shortest X 0 = (X, 0)"
| "shortest X (Suc m) =
     (case candidate X (Suc m) of Some s \<Rightarrow> (s, Suc m) | None \<Rightarrow> shortest X m)"

definition toString :: "number \<Rightarrow> string" where
  "toString x =
     (let X = nat \<lfloor>x\<rfloor>;
          (s, m) = shortest X (length (digits X) - 1)
      in if X < 10 ^ 21 then digits s @ replicate m (CHR ''0'')
         else
           let e = m + length (digits s) - 1;
               ds = rev (dropWhile (\<lambda>c. c = CHR ''0'') (rev (digits s)))
           in if length ds = 1 then ds @ ''e+'' @ digits e
              else take 1 ds @ ''.'' @ drop 1 ds @ ''e+'' @ digits e)"

section \<open>Playlist data\<close>

text \<open>
  The fields of a Spotify track and playlist that the page computes with or indexes into.
  \<open>preview_url\<close> may be \<open>null\<close>; \<open>duration_ms\<close> and \<open>total\<close> (\<open>data.tracks.total\<close>)
  are numbers holding a whole non-negative value. The wrapper object \<open>{ track }\<close> around
  each track, and the fields that are displayed as they are (ids, titles, album names,
  links), are left out.
\<close>

record artist =
  name :: string

record cover =
  url :: string

record album_data =
  images :: "cover list"

record track =
  preview_url :: "string option"
  duration_ms :: nat
  album :: album_data
  artists :: "artist list"

record playlist =
  description :: string
  total :: nat

section \<open>Aggregates of the Playlist component\<close>

text \<open>
  \<open>tracks.reduce((acc, track) => acc + track.track.duration_ms, 0) / 3600000\<close>,
  then \<open>toFixed(1)\<close>.
\<close>

definition duration :: "track list \<Rightarrow> string" where
  "duration tracks =
     toFixed 1 (fdiv (foldl (\<lambda>acc t. fadd acc (of_nat (duration_ms t))) 0 tracks) 3600000)"

text \<open>
  The array \<open>artists\<close> of \<open>{ name, count }\<close> objects, as a list of pairs in insertion
  order. \<open>existing.count += 1\<close> updates the entry that \<open>find\<close> returned, the first one
  with that name.
\<close>

fun increment :: "string \<Rightarrow> (string \<times> nat) list \<Rightarrow> (string \<times> nat) list" where
  "increment n [] = []"
| "increment n (e # es) = (if fst e = n then (fst e, snd e + 1) # es else e # increment n es)"

definition add_artist :: "(string \<times> nat) list \<Rightarrow> artist \<Rightarrow> (string \<times> nat) list" where
  "add_artist acc a =
     (case find (\<lambda>e. fst e = name a) acc of
        Some existing \<Rightarrow> increment (name a) acc
      | None \<Rightarrow> if name a \<noteq> [] then acc @ [(name a, 1)] else acc)"

definition collect_artists :: "track list \<Rightarrow> (string \<times> nat) list" where
  "collect_artists tracks = foldl (\<lambda>acc t. foldl add_artist acc (artists t)) [] tracks"

text \<open>\<open>new Set(artists.map((artist) => artist.name)).size\<close>\<close>

definition uniqueArtists :: "track list \<Rightarrow> string set" where
  "uniqueArtists tracks = set (map fst (collect_artists tracks))"

definition uniqueArtists_size :: "track list \<Rightarrow> nat" where
  "uniqueArtists_size tracks = card (uniqueArtists tracks)"

text \<open>The comparator \<open>(artist1, artist2) => (artist2.count > artist1.count ? 1 : -1)\<close>.\<close>

definition by_count :: "string \<times> nat \<Rightarrow> string \<times> nat \<Rightarrow> int" where
  "by_count artist1 artist2 = (if snd artist2 > snd artist1 then 1 else - 1)"


text \<open>
  The page's comparator is not consistent (see \<open>by_count_not_consistent\<close>), so the model
  does not compute the sort: \<open>topArtists\<close> takes the array as the engine leaves it,
  \<open>arr\<close>, and \<open>reordered artists arr\<close> says of it what holds of every order: it has
  the entries of \<open>artists\<close>, and as many.
  \<open>.slice(0, 5).map((artist) => artist.name)\<close> is then computed on it.
\<close>

definition reordered :: "'a list \<Rightarrow> 'a list \<Rightarrow> bool" where
  "reordered xs ys \<longleftrightarrow> set ys = set xs \<and> length ys = length xs"

definition topArtists :: "(string \<times> nat) list \<Rightarrow> string list" where
  "topArtists arr = map fst (take 5 arr)"

text \<open>\<open>data.description.endsWith('.') ? data.description : `${data.description}.`\<close>\<close>

definition description_shown :: "playlist \<Rightarrow> string" where
  "description_shown data =
     (if endsWith (description data) ''.'' then description data else description data @ ''.'')"

text \<open>
  The three entries of the statistics line, before they are joined. The second and the
  third interpolate a number into a template literal; the size of a \<open>Set\<close> is below
  \<open>2 ^ 53\<close>, where a whole number prints as its digits.
\<close>

definition stats :: "playlist \<Rightarrow> track list \<Rightarrow> string list" where
  "stats data tracks =
     [duration tracks @ '' hours'',
      toString (of_nat (total data)) @ '' tracks'',
      digits (uniqueArtists_size tracks) @ '' artists'']"

section \<open>Rendering\<close>

text \<open>
  A value is truthy unless it is \<open>null\<close> or the empty string.

  \<open>Track\<close> builds the row of one track. Of a row, the model keeps whether it starts with a
  separator (\<open>Boolean(index)\<close>), whether it has a progress bar
  (\<open>Boolean(track.preview_url)\<close>), the source of the cover image
  (\<open>track.album.images[0].url\<close>) and the artist shown (\<open>track.artists[0].name\<close>).
  Indexing an empty array gives \<open>undefined\<close>, and reading a property of \<open>undefined\<close>
  throws a \<open>TypeError\<close>.
\<close>

definition truthy :: "string option \<Rightarrow> bool" where
  "truthy u = (case u of None \<Rightarrow> False | Some v \<Rightarrow> v \<noteq> [])"

datatype error = TypeError

record row =
  separator :: bool
  progress_bar :: bool
  image_src :: string
  artist_shown :: string

definition Track :: "track \<Rightarrow> nat \<Rightarrow> error + row" where
  "Track t index =
     (case images (album t) of
        [] \<Rightarrow> Inl TypeError
      | img # _ \<Rightarrow>
          (case artists t of
             [] \<Rightarrow> Inl TypeError
           | first # _ \<Rightarrow>
               Inr \<lparr>separator = (index \<noteq> 0), progress_bar = truthy (preview_url t),
                    image_src = url img, artist_shown = name first\<rparr>))"

text \<open>
  \<open>tracks.map(Track)\<close> calls \<open>Track\<close> on each element and its index, in order, the
  indices counted from \<open>0\<close>; the first call that throws ends the rendering.
\<close>

fun map_Track :: "nat \<Rightarrow> track list \<Rightarrow> error + row list" where
  "map_Track index [] = Inr []"
| "map_Track index (t # ts) =
     (case Track t index of
        Inl e \<Rightarrow> Inl e
      | Inr r \<Rightarrow> (case map_Track (Suc index) ts of Inl e \<Rightarrow> Inl e | Inr rs \<Rightarrow> Inr (r # rs)))"

text \<open>
  What \<open>Playlist\<close> returns: the description, the entries of the statistics line and the
  rows of the track list, or the error thrown on the way, in which case nothing is
  displayed. The title, the link and the sentence after the description (the names of
  \<open>topArtists\<close>, put together by \<open>Intl.ListFormat\<close>) are not part of the model's page.
\<close>

record view =
  description_text :: string
  statistics :: "string list"
  track_list :: "row list"

definition Playlist :: "playlist \<Rightarrow> track list \<Rightarrow> error + view" where
  "Playlist data tracks =
     (case map_Track 0 tracks of
        Inl e \<Rightarrow> Inl e
      | Inr rows \<Rightarrow>
          Inr \<lparr>description_text = description_shown data, statistics = stats data tracks,
               track_list = rows\<rparr>)"

section \<open>The audio preview controller of the Track component\<close>

text \<open>
  The browser objects a Track component creates live in the page: audio elements, timers
  and the promises returned by \<open>HTMLMediaElement.play()\<close>. An element, a timer and a
  promise are referred to by their position in the page's lists, so a timer handle is the
  index of the timer (a handle is always truthy, as the positive handles of a browser are).

  An event handler runs in the closure of the latest render of its component: it reads the
  component state as it is when the handler is called, and a callback that the handler
  creates keeps the values the handler read. A timer callback therefore carries the
  \<open>fadeIn\<close> or \<open>fadeOut\<close> value of the render that created it, and a promise carries the
  \<open>interactableNotified\<close> value of that render.
\<close>

record audio_elem =
  src :: string
  volume :: number
  paused :: bool

datatype callback =
    FadeInTick nat "nat option"
  | FadeOutTick nat "nat option"
  | PauseTimeout nat

record timer =
  callback :: callback
  delay :: number
  repeating :: bool
  active :: bool

record promise =
  owner :: nat
  notified :: bool
  settled :: bool

datatype toast = Toast string | ToastSuccess string | ToastError string

datatype outcome = Fulfilled | Rejected string

record track_state =
  audio :: "nat option"
  fadeIn :: "nat option"
  fadeOut :: "nat option"
  interactable :: bool

record page =
  comps :: "track_state list"
  interactableNotified :: bool
  elems :: "audio_elem list"
  timers :: "timer list"
  promises :: "promise list"
  toasts :: "toast list"

definition init :: "nat \<Rightarrow> page" where
  "init n =
     \<lparr>comps = replicate n \<lparr>audio = None, fadeIn = None, fadeOut = None, interactable = False\<rparr>,
      interactableNotified = False, elems = [], timers = [], promises = [], toasts = []\<rparr>"

definition set_comp :: "nat \<Rightarrow> (track_state \<Rightarrow> track_state) \<Rightarrow> page \<Rightarrow> page" where
  "set_comp i f s = s\<lparr>comps := (comps s)[i := f (comps s ! i)]\<rparr>"

definition setInterval :: "callback \<Rightarrow> number \<Rightarrow> page \<Rightarrow> page" where
  "setInterval cb ms s =
     s\<lparr>timers := timers s @ [\<lparr>callback = cb, delay = ms, repeating = True, active = True\<rparr>]\<rparr>"

definition setTimeout :: "callback \<Rightarrow> number \<Rightarrow> page \<Rightarrow> page" where
  "setTimeout cb ms s =
     s\<lparr>timers := timers s @ [\<lparr>callback = cb, delay = ms, repeating = False, active = True\<rparr>]\<rparr>"

definition clearInterval :: "nat \<Rightarrow> page \<Rightarrow> page" where
  "clearInterval h s =
     (if h < length (timers s)
      then s\<lparr>timers := (timers s)[h := (timers s ! h)\<lparr>active := False\<rparr>]\<rparr> else s)"

text \<open>
  The \<open>volume\<close> setter throws for a value outside \<open>[0, 1]\<close> and leaves the element as it
  was; a throwing timer callback ends there.
\<close>

definition set_volume :: "nat \<Rightarrow> number \<Rightarrow> page \<Rightarrow> page" where
  "set_volume a v s =
     (if a < length (elems s) \<and> 0 \<le> v \<and> v \<le> 1
      then s\<lparr>elems := (elems s)[a := (elems s ! a)\<lparr>volume := v\<rparr>]\<rparr> else s)"

definition pause :: "nat \<Rightarrow> page \<Rightarrow> page" where
  "pause a s =
     (if a < length (elems s)
      then s\<lparr>elems := (elems s)[a := (elems s ! a)\<lparr>paused := True\<rparr>]\<rparr> else s)"

text \<open>
  \<open>play\<close> of component \<open>i\<close>. Whether the browser lets the new element play is the
  browser's decision, the argument \<open>allowed\<close>: the element starts playing at once when it
  is, and stays paused when it is not. The promise of \<open>newAudio.play()\<close> is settled later,
  by \<open>settle\<close>.
\<close>

definition play :: "track \<Rightarrow> bool \<Rightarrow> nat \<Rightarrow> page \<Rightarrow> page" where
  "play track allowed i s =
     (if length (comps s) \<le> i then s
      else if audio (comps s ! i) \<noteq> None \<or> \<not> truthy (preview_url track) then s
      else
        let newAudio = length (elems s);
            s = s\<lparr>elems := elems s @
                   [\<lparr>src = the (preview_url track), volume = 0, paused = \<not> allowed\<rparr>]\<rparr>;
            s = s\<lparr>promises := promises s @
                   [\<lparr>owner = i, notified = interactableNotified s, settled = False\<rparr>]\<rparr>;
            timer = length (timers s);
            s = setInterval (FadeInTick newAudio (fadeIn (comps s ! i))) 100 s;
            s = set_comp i (\<lambda>c. c\<lparr>fadeIn := Some timer\<rparr>) s
        in set_comp i (\<lambda>c. c\<lparr>audio := Some newAudio\<rparr>) s)"

definition stop :: "nat \<Rightarrow> page \<Rightarrow> page" where
  "stop i s =
     (if length (comps s) \<le> i then s
      else case audio (comps s ! i) of
        None \<Rightarrow> s
      | Some a \<Rightarrow>
          let c = comps s ! i;
              originalVolume = volume (elems s ! a);
              s = set_comp i (\<lambda>c. c\<lparr>audio := None\<rparr>) s;
              s = (case fadeIn c of Some h \<Rightarrow> clearInterval h s | None \<Rightarrow> s);
              timer = length (timers s);
              s = setInterval (FadeOutTick a (fadeOut c)) 100 s;
              s = set_comp i (\<lambda>c. c\<lparr>fadeOut := Some timer\<rparr>) s
          in setTimeout (PauseTimeout a) (fmul (fdiv originalVolume lit_0_05) 100) s)"

text \<open>The bodies of the two interval callbacks and of the timeout callback.\<close>

definition fade_in_tick :: "nat \<Rightarrow> nat option \<Rightarrow> page \<Rightarrow> page" where
  "fade_in_tick a captured s =
     (if volume (elems s ! a) < 1
      then set_volume a (Number (toFixed 2 (fadd (volume (elems s ! a)) lit_0_05))) s
      else case captured of Some h \<Rightarrow> clearInterval h s | None \<Rightarrow> s)"

definition fade_out_tick :: "nat \<Rightarrow> nat option \<Rightarrow> page \<Rightarrow> page" where
  "fade_out_tick a captured s =
     (if 0 < volume (elems s ! a)
      then set_volume a (Number (toFixed 2 (fsub (volume (elems s ! a)) lit_0_05))) s
      else case captured of Some h \<Rightarrow> clearInterval h s | None \<Rightarrow> s)"

text \<open>
  The event loop runs the callback of an active timer; a timeout is spent by running,
  an interval stays armed.
\<close>

definition fire :: "nat \<Rightarrow> page \<Rightarrow> page" where
  "fire h s =
     (if h < length (timers s) \<and> active (timers s ! h)
      then
        let t = timers s ! h;
            s = (if repeating t then s else clearInterval h s)
        in case callback t of
             FadeInTick a captured \<Rightarrow> fade_in_tick a captured s
           | FadeOutTick a captured \<Rightarrow> fade_out_tick a captured s
           | PauseTimeout a \<Rightarrow> pause a s
      else s)"

text \<open>The messages of the source.\<close>

definition autoplay_phrase :: string where
  "autoplay_phrase = ''user didn't interact with the document first''"

definition pause_phrase :: string where
  "pause_phrase = ''interrupted by a call to pause()''"

definition instruction :: toast where
  "instruction = Toast ''Please click anywhere on the page to preview tracks on hover.''"

definition success :: toast where
  "success = ToastSuccess (''Nice! You'' @ [CHR 0xE2, CHR 0x80, CHR 0x99] @ ''re good to go.'')"

text \<open>
  The \<open>then\<close> and \<open>catch\<close> callbacks of \<open>newAudio.play()\<close>, run when the browser settles
  promise \<open>p\<close>.
\<close>

definition settle :: "nat \<Rightarrow> outcome \<Rightarrow> page \<Rightarrow> page" where
  "settle p result s =
     (if p < length (promises s) \<and> \<not> settled (promises s ! p)
      then
        let pr = promises s ! p;
            s = s\<lparr>promises := (promises s)[p := pr\<lparr>settled := True\<rparr>]\<rparr>
        in case result of
             Fulfilled \<Rightarrow>
               let s = set_comp (owner pr) (\<lambda>c. c\<lparr>interactable := True\<rparr>) s
               in if notified pr
                  then s\<lparr>interactableNotified := False, toasts := toasts s @ [success]\<rparr>
                  else s
           | Rejected message \<Rightarrow>
               if includes_str message autoplay_phrase
               then if \<not> notified pr
                    then s\<lparr>toasts := toasts s @ [instruction], interactableNotified := True\<rparr>
                    else s
               else if \<not> includes_str message pause_phrase
                    then s\<lparr>toasts := toasts s @ [ToastError message]\<rparr>
                    else s
      else s)"

text \<open>
  What can happen to the page: the pointer enters or leaves row \<open>i\<close> (or the row gains
  or loses focus, which call the same handlers), a timer fires, a promise is settled.
\<close>

datatype event =
    MouseOver nat bool
  | MouseLeave nat
  | Fire nat
  | Settle nat outcome

fun step :: "track list \<Rightarrow> page \<Rightarrow> event \<Rightarrow> page" where
  "step tracks s (MouseOver i allowed) =
     (if i < length tracks then play (tracks ! i) allowed i s else s)"
| "step tracks s (MouseLeave i) = stop i s"
| "step tracks s (Fire h) = fire h s"
| "step tracks s (Settle p result) = settle p result s"

definition run :: "track list \<Rightarrow> event list \<Rightarrow> page \<Rightarrow> page" where
  "run tracks evs s = foldl (step tracks) s evs"

section \<open>Notions for the properties\<close>

text \<open>
  The claim about the duration in its own words: \<open>hours\<close> is the sum of the tracks'
  \<open>duration_ms\<close> divided by 3600000, as a real number, and \<open>duration_exact\<close> is that
  quotient rendered to one decimal place (by the rule of \<open>toFixed\<close>: the nearest tenth,
  and the larger of two that are equally near).
\<close>

definition hours :: "track list \<Rightarrow> real" where
  "hours tracks = real (sum_list (map duration_ms tracks)) / 3600000"

definition duration_exact :: "track list \<Rightarrow> string" where
  "duration_exact tracks = toFixed 1 (hours tracks)"

text \<open>
  The artist names of all tracks, in the order the page visits them; the number of times a
  name appears among them is \<open>count_list (artist_names tracks) n\<close>.
\<close>

definition artist_names :: "track list \<Rightarrow> string list" where
  "artist_names tracks = concat (map (\<lambda>t. map name (artists t)) tracks)"

text \<open>
  The invariant of the loop that builds \<open>artists\<close>: after the names \<open>seen\<close>, the array
  holds one entry for each non-empty name seen, with the number of times it was seen.
\<close>

definition counted :: "(string \<times> nat) list \<Rightarrow> string list \<Rightarrow> bool" where
  "counted acc seen \<longleftrightarrow>
     distinct (map fst acc) \<and>
     map_of acc = (\<lambda>n. if n \<in> set seen \<and> n \<noteq> [] then Some (count_list seen n) else None)"

text \<open>
  \<open>vol k\<close> is the number that the decimal \<open>k \<times> 0.05\<close> denotes, the \<open>k\<close>-th step of the
  volume ramp. \<open>next_up\<close> and \<open>next_down\<close> are the assignments of the two interval
  callbacks, and \<open>ramp_up\<close> and \<open>ramp_down\<close> what one tick of a callback does to the
  volume (nothing, when the setter refuses the new value).
\<close>

definition vol :: "nat \<Rightarrow> number" where
  "vol k = fl (of_nat k * 5 / 100)"

definition next_up :: "number \<Rightarrow> number" where
  "next_up v = Number (toFixed 2 (fadd v lit_0_05))"

definition next_down :: "number \<Rightarrow> number" where
  "next_down v = Number (toFixed 2 (fsub v lit_0_05))"

definition ramp_up :: "number \<Rightarrow> number" where
  "ramp_up v = (if v < 1 \<and> 0 \<le> next_up v \<and> next_up v \<le> 1 then next_up v else v)"

definition ramp_down :: "number \<Rightarrow> number" where
  "ramp_down v = (if 0 < v \<and> 0 \<le> next_down v \<and> next_down v \<le> 1 then next_down v else v)"

text \<open>
  A page is well formed when the references its components hold point at an element or a
  timer that exists; every page reached from \<open>init\<close> is.
\<close>

definition refs_ok :: "page \<Rightarrow> track_state \<Rightarrow> bool" where
  "refs_ok s c \<longleftrightarrow>
     (case audio c of None \<Rightarrow> True | Some a \<Rightarrow> a < length (elems s)) \<and>
     (case fadeIn c of None \<Rightarrow> True | Some h \<Rightarrow> h < length (timers s)) \<and>
     (case fadeOut c of None \<Rightarrow> True | Some h \<Rightarrow> h < length (timers s))"

definition wf_page :: "page \<Rightarrow> bool" where
  "wf_page s \<longleftrightarrow> list_all (refs_ok s) (comps s)"

text \<open>An element is audible when it is playing at a volume above zero.\<close>

definition audible :: "page \<Rightarrow> nat \<Rightarrow> bool" where
  "audible s a \<longleftrightarrow> a < length (elems s) \<and> \<not> paused (elems s ! a) \<and> 0 < volume (elems s ! a)"

text \<open>
  The instruction toast is shown at most once until a success toast: reading the toasts
  in order, no instruction follows an instruction without a success toast in between.
  \<open>flag_after\<close> is the value of \<open>interactableNotified\<close> that the toasts account for.
\<close>

fun once_from :: "bool \<Rightarrow> toast list \<Rightarrow> bool" where
  "once_from b [] = True"
| "once_from b (t # ts) =
     (if t = instruction then \<not> b \<and> once_from True ts
      else if t = success then once_from False ts
      else once_from b ts)"

fun flag_after :: "bool \<Rightarrow> toast list \<Rightarrow> bool" where
  "flag_after b [] = b"
| "flag_after b (t # ts) =
     flag_after (if t = instruction then True else if t = success then False else b) ts"

text \<open>
  A promise is settled promptly when \<open>interactableNotified\<close> still has the value that the
  render which called \<open>play\<close> read. A run is prompt when each of its promises is.
\<close>

fun prompt :: "page \<Rightarrow> event \<Rightarrow> bool" where
  "prompt s (Settle p result) =
     (if p < length (promises s) \<and> \<not> settled (promises s ! p)
      then notified (promises s ! p) = interactableNotified s else True)"
| "prompt s e = True"

fun prompt_run :: "track list \<Rightarrow> page \<Rightarrow> event list \<Rightarrow> bool" where
  "prompt_run tracks s [] = True"
| "prompt_run tracks s (e # es) = (prompt s e \<and> prompt_run tracks (step tracks s e) es)"

text \<open>The delay that \<open>stop\<close> passes to \<open>setTimeout\<close> at volume \<open>v\<close>.\<close>

definition pause_delay :: "number \<Rightarrow> number" where
  "pause_delay v = fmul (fdiv v lit_0_05) 100"

text \<open>An album with one cover image and a track with a preview, for the examples.\<close>

definition cover_art :: album_data where
  "cover_art = \<lparr>images = [\<lparr>url = ''https://i.scdn.co/image/demo''\<rparr>]\<rparr>"

definition preview_track :: track where
  "preview_track =
     \<lparr>preview_url = Some ''https://p.scdn.co/mp3-preview/demo'', duration_ms = 30000,
      album = cover_art, artists = [\<lparr>name = ''Demo''\<rparr>]\<rparr>"


text \<open>
  The invariant behind ``at most once'': the toasts shown so far satisfy \<open>once_from\<close>, and
  they account for the current value of \<open>interactableNotified\<close>.
\<close>

definition accounted :: "page \<Rightarrow> bool" where
  "accounted s \<longleftrightarrow>
     once_from False (toasts s) \<and> flag_after False (toasts s) = interactableNotified s"

section \<open>Computing with numbers\<close>

text \<open>Rules that evaluate numbers and the strings of \<open>toFixed\<close>.\<close>

lemmas fl_eval = fl_def ilog2.simps pow2_def round_ties_even_def Let_def fadd_def fsub_def
  fmul_def fdiv_def lit_0_05_def
lemmas str_eval = toFixed_def toFixed_n_def Number_def digits.simps digit_char_def digit_val_def

lemma pow2_pos: "0 < pow2 e"
  by (simp add: pow2_def)

lemma pow2_Suc: "pow2 (e + 1) = 2 * pow2 e"
proof (cases "0 \<le> e")
  case True
  then show ?thesis by (simp add: pow2_def nat_add_distrib)
next
  case False
  then have "nat (- e) = Suc (nat (- e - 1))" by simp
  with False show ?thesis by (simp add: pow2_def)
qed

lemma pow2_pred: "pow2 (e - 1) = pow2 e / 2"
  using pow2_Suc [of "e - 1"] by simp

lemma pow2_add_nat: "pow2 (e + int k) = 2 ^ k * pow2 e"
proof (induction k)
  case 0
  show ?case by simp
next
  case (Suc k)
  have "e + int (Suc k) = (e + int k) + 1" by simp
  then have "pow2 (e + int (Suc k)) = pow2 ((e + int k) + 1)" by (rule arg_cong)
  also have "\<dots> = 2 * pow2 (e + int k)" by (rule pow2_Suc)
  finally show ?case using Suc by simp
qed

lemma pow2_mono: "a \<le> b \<Longrightarrow> pow2 a \<le> pow2 b"
proof -
  assume "a \<le> b"
  then obtain k where "b = a + int k" using zle_iff_zadd by blast
  then have "pow2 b = 2 ^ k * pow2 a" by (simp add: pow2_add_nat)
  moreover have "(1::real) \<le> 2 ^ k" by simp
  ultimately show ?thesis using pow2_pos [of a] by (simp add: mult_le_cancel_right1)
qed

lemma pow2_less_imp: "pow2 a < pow2 b \<Longrightarrow> a < b"
  using pow2_mono [of b a] by (cases "a < b") simp_all

lemma ilog2_bounds: "0 < x \<Longrightarrow> pow2 (ilog2 x) \<le> x \<and> x < pow2 (ilog2 x + 1)"
proof (induction x rule: ilog2.induct)
  case (1 x)
  show ?case
  proof (cases "2 \<le> x")
    case True
    with 1 have ih: "pow2 (ilog2 (x / 2)) \<le> x / 2" "x / 2 < pow2 (ilog2 (x / 2) + 1)" by simp_all
    from True have e: "ilog2 x = ilog2 (x / 2) + 1" by (subst ilog2.simps) simp
    have "pow2 (ilog2 x) = 2 * pow2 (ilog2 (x / 2))"
      unfolding e by (rule pow2_Suc)
    moreover have "pow2 (ilog2 x + 1) = 2 * pow2 (ilog2 (x / 2) + 1)"
      unfolding e by (rule pow2_Suc)
    ultimately show ?thesis using ih by simp
  next
    case False
    show ?thesis
    proof (cases "x < 1")
      case True
      with 1 False have ih: "pow2 (ilog2 (x * 2)) \<le> x * 2" "x * 2 < pow2 (ilog2 (x * 2) + 1)"
        by simp_all
      from True 1 have e: "ilog2 x = ilog2 (x * 2) - 1" by (subst ilog2.simps) simp
      have "pow2 (ilog2 x) = pow2 (ilog2 (x * 2)) / 2"
        unfolding e by (rule pow2_pred)
      moreover have "pow2 (ilog2 (x * 2) + 1) = 2 * pow2 (ilog2 (x * 2))"
        by (rule pow2_Suc)
      moreover have "ilog2 x + 1 = ilog2 (x * 2)" by (simp add: e)
      ultimately show ?thesis using ih by simp
    next
      case ge: False
      with False 1 have "ilog2 x = 0" by (subst ilog2.simps) simp
      with False ge show ?thesis by (simp add: pow2_def)
    qed
  qed
qed

lemma round_ties_even_int: "round_ties_even (of_int k) = k"
  by (simp add: round_ties_even_def)

lemma round_ties_even_error: "\<bar>of_int (round_ties_even y) - y\<bar> \<le> 1 / 2"
proof -
  have "of_int \<lfloor>y\<rfloor> \<le> y" "y < of_int \<lfloor>y\<rfloor> + 1" by linarith+
  then show ?thesis by (auto simp add: round_ties_even_def Let_def)
qed

text \<open>Rounding moves a positive number by at most half a unit in the last place.\<close>

lemma fl_error:
  assumes "0 < x" and "- 1022 \<le> ilog2 x"
  shows "\<bar>fl x - x\<bar> \<le> x / 2 ^ 53"
proof -
  define e where "e = ilog2 x"
  define u where "u = pow2 (e - 52)"
  have u: "0 < u" by (simp add: u_def pow2_pos)
  from assms(2) have "max (ilog2 \<bar>x\<bar> - 52) (- 1074) = e - 52"
    using assms(1) by (simp add: e_def)
  then have fl: "fl x = of_int (round_ties_even (x / u)) * u"
    using assms(1) by (simp add: fl_def u_def Let_def)
  have "\<bar>of_int (round_ties_even (x / u)) - x / u\<bar> \<le> 1 / 2"
    by (rule round_ties_even_error)
  then have "\<bar>of_int (round_ties_even (x / u)) - x / u\<bar> * u \<le> 1 / 2 * u"
    using u by (simp only: mult_le_cancel_right) simp
  moreover have "\<bar>of_int (round_ties_even (x / u)) - x / u\<bar> * u = \<bar>fl x - x\<bar>"
  proof -
    have "\<bar>of_int (round_ties_even (x / u)) - x / u\<bar> * u
        = \<bar>(of_int (round_ties_even (x / u)) - x / u) * u\<bar>"
      using u by (simp add: abs_mult)
    also have "(of_int (round_ties_even (x / u)) - x / u) * u = fl x - x"
      using u by (simp add: fl algebra_simps)
    finally show ?thesis .
  qed
  ultimately have half: "\<bar>fl x - x\<bar> \<le> u / 2" by simp
  have "pow2 e = 2 ^ 52 * u"
    using pow2_add_nat [of "e - 52" 52] by (simp add: u_def)
  moreover have "pow2 e \<le> x"
    using ilog2_bounds [OF assms(1)] by (simp add: e_def)
  ultimately have "u / 2 \<le> x / 2 ^ 53" by simp
  with half show ?thesis by simp
qed

text \<open>A whole number below \<open>2 ^ 53\<close> is a binary64 value.\<close>

lemma fl_of_nat:
  assumes "n < 2 ^ 53"
  shows "fl (of_nat n) = of_nat n"
proof (cases "n = 0")
  case True
  then show ?thesis by (simp add: fl_def)
next
  case False
  define x :: real where "x = of_nat n"
  define e where "e = ilog2 x"
  from False have x: "0 < x" "1 \<le> x" by (simp_all add: x_def)
  have "x < 2 ^ 53"
    using assms unfolding x_def by (metis of_nat_less_iff of_nat_numeral of_nat_power)
  then have "x < pow2 53" by (simp add: pow2_def)
  then have "pow2 e < pow2 53"
    using ilog2_bounds [OF x(1)] by (simp add: e_def)
  then have hi: "e < 53" by (rule pow2_less_imp)
  have "pow2 0 < pow2 (e + 1)"
    using ilog2_bounds [OF x(1)] x(2) by (simp add: e_def pow2_def)
  then have "0 < e + 1" by (rule pow2_less_imp)
  then have lo: "0 \<le> e" by simp
  define k where "k = nat (52 - e)"
  have k: "e - 52 = - int k" using hi by (simp add: k_def)
  have u: "pow2 (e - 52) = 1 / 2 ^ k"
    unfolding k by (simp add: pow2_def)
  have "x / pow2 (e - 52) = of_int (int n * 2 ^ k)"
    by (simp add: u x_def)
  then have "round_ties_even (x / pow2 (e - 52)) = int n * 2 ^ k"
    by (simp only: round_ties_even_int)
  moreover have "max (ilog2 \<bar>x\<bar> - 52) (- 1074) = e - 52"
    using lo x(1) by (simp add: e_def)
  ultimately have "fl x = of_int (int n * 2 ^ k) * pow2 (e - 52)"
    using x(1) by (simp add: fl_def Let_def)
  then show ?thesis by (simp add: u x_def)
qed

lemma reduce_exact:
  "a + sum_list (map duration_ms tracks) < 2 ^ 53 \<Longrightarrow>
   foldl (\<lambda>acc t. fadd acc (of_nat (duration_ms t))) (of_nat a) tracks =
     of_nat (a + sum_list (map duration_ms tracks))"
proof (induction tracks arbitrary: a)
  case Nil
  show ?case by simp
next
  case (Cons t ts)
  from Cons.prems have "a + duration_ms t < 2 ^ 53" by simp
  then have "fadd (of_nat a) (of_nat (duration_ms t)) = of_nat (a + duration_ms t)"
    using fl_of_nat [of "a + duration_ms t"] by (simp add: fadd_def)
  moreover from Cons.prems have "(a + duration_ms t) + sum_list (map duration_ms ts) < 2 ^ 53"
    by (simp add: add.assoc)
  ultimately show ?case using Cons.IH [of "a + duration_ms t"] by (simp add: add.assoc)
qed

lemma toFixed_1:
  "0 \<le> x \<Longrightarrow>
   toFixed 1 x = digits (toFixed_n 1 x div 10) @ ''.'' @ [digit_char (toFixed_n 1 x mod 10)]"
proof -
  assume "0 \<le> x"
  define n where "n = toFixed_n 1 x"
  define m where "m = (if length (digits n) \<le> 1
      then replicate (2 - length (digits n)) (CHR ''0'') @ digits n else digits n)"
  have shape: "toFixed 1 x = take (length m - 1) m @ ''.'' @ drop (length m - 1) m"
    using \<open>0 \<le> x\<close> by (simp add: toFixed_def Let_def m_def n_def)
  have "m = digits (n div 10) @ [digit_char (n mod 10)]"
  proof (cases "n < 10")
    case True
    then have "digits n = [digit_char n]" "digits (n div 10) = ''0''"
      by (simp_all add: digits.simps digit_char_def)
    with True show ?thesis by (simp add: m_def)
  next
    case False
    then have d: "digits n = digits (n div 10) @ [digit_char (n mod 10)]"
      by (subst digits.simps) simp
    have "digits (n div 10) \<noteq> []"
      by (subst digits.simps) simp
    then have "0 < length (digits (n div 10))" by simp
    with d show ?thesis by (simp add: m_def)
  qed
  then have "take (length m - 1) m @ ''.'' @ drop (length m - 1) m =
      digits (n div 10) @ ''.'' @ [digit_char (n mod 10)]"
    by simp
  with shape show ?thesis unfolding n_def [symmetric] by (rule trans)
qed

text \<open>
  The quotient of a whole number \<open>S\<close> of milliseconds below \<open>2 ^ 53\<close> by 3600000, computed
  in binary64 and shown with one decimal: the number \<open>n\<close> of tenths shown is one for which
  \<open>S\<close> lies between \<open>(n - 1/2) \<times> 360000\<close> and \<open>(n + 1/2) \<times> 360000\<close>.
\<close>

lemma hours_bracket:
  assumes "S < 2 ^ 53"
  shows "360000 * toFixed_n 1 (fdiv (of_nat S) 3600000) \<le> S + 180000"
    and "S + 180000 \<le> 360000 * (toFixed_n 1 (fdiv (of_nat S) 3600000) + 1)"
    and "0 \<le> fdiv (of_nat S) 3600000"
proof -
  define x :: real where "x = of_nat S / 3600000"
  define y where "y = fl x"
  define m where "m = \<lfloor>y * 10 + 1 / 2\<rfloor>"
  have S: "real S < 2 ^ 53"
    using assms by (metis of_nat_less_iff of_nat_numeral of_nat_power)
  have close: "\<bar>y - x\<bar> \<le> x / 2 ^ 53"
  proof (cases "S = 0")
    case True
    then show ?thesis by (simp add: x_def y_def fl_def)
  next
    case False
    then have x: "0 < x" by (simp add: x_def)
    from False have "1 \<le> real S" by simp
    then have "pow2 (- 22) < x" by (simp add: x_def pow2_def)
    also have "x < pow2 (ilog2 x + 1)" using ilog2_bounds [OF x] by simp
    finally have "- 22 < ilog2 x + 1" by (rule pow2_less_imp)
    then have "- 1022 \<le> ilog2 x" by simp
    with x show ?thesis unfolding y_def by (rule fl_error)
  qed
  have x0: "0 \<le> x" by (simp add: x_def)
  have small: "x / 2 ^ 53 \<le> x"
    using x0 by (simp add: field_simps)
  from close small have y0: "0 \<le> y" by linarith
  then have m0: "0 \<le> m" by (simp add: m_def)
  have n: "real (toFixed_n 1 y) = of_int m"
    using y0 m0 by (simp add: toFixed_n_def m_def)
  have fl1: "of_int m \<le> y * 10 + 1 / 2" and fl2: "y * 10 + 1 / 2 < of_int m + 1"
    unfolding m_def by linarith+
  have err: "20 * (x / 2 ^ 53) < 1 / 180000"
    using S by (simp add: x_def)
  have upper: "int S \<le> (2 * m + 1) * 180000"
  proof (rule ccontr)
    assume "\<not> int S \<le> (2 * m + 1) * 180000"
    then have "(2 * m + 1) * 180000 + 1 \<le> int S" by simp
    then have "real_of_int ((2 * m + 1) * 180000 + 1) \<le> real_of_int (int S)"
      by (simp only: of_int_le_iff)
    then have "(2 * of_int m + 1) * 180000 + 1 \<le> real S" by simp
    then have "2 * of_int m + 1 + 1 / 180000 \<le> 20 * x" by (simp add: x_def field_simps)
    with close err fl2 show False by linarith
  qed
  have lower: "(2 * m - 1) * 180000 \<le> int S"
  proof (rule ccontr)
    assume "\<not> (2 * m - 1) * 180000 \<le> int S"
    then have "int S + 1 \<le> (2 * m - 1) * 180000" by simp
    then have "real_of_int (int S + 1) \<le> real_of_int ((2 * m - 1) * 180000)"
      by (simp only: of_int_le_iff)
    then have "real S + 1 \<le> (2 * of_int m - 1) * 180000" by simp
    then have "20 * x \<le> 2 * of_int m - 1 - 1 / 180000" by (simp add: x_def field_simps)
    with close err fl1 show False by linarith
  qed
  have y: "fdiv (of_nat S) 3600000 = y"
    by (simp add: fdiv_def y_def x_def)
  from m0 n have nm: "int (toFixed_n 1 y) = m" by linarith
  from lower have "360000 * m \<le> int S + 180000" by (simp add: algebra_simps)
  then have "int (360000 * toFixed_n 1 y) \<le> int (S + 180000)"
    using nm by simp
  then have "360000 * toFixed_n 1 y \<le> S + 180000"
    by (simp only: of_nat_le_iff)
  then show "360000 * toFixed_n 1 (fdiv (of_nat S) 3600000) \<le> S + 180000"
    by (simp only: y)
  from upper have "int S + 180000 \<le> 360000 * (m + 1)" by (simp add: algebra_simps)
  then have "int (S + 180000) \<le> int (360000 * (toFixed_n 1 y + 1))"
    using nm by simp
  then have "S + 180000 \<le> 360000 * (toFixed_n 1 y + 1)"
    by (simp only: of_nat_le_iff)
  then show "S + 180000 \<le> 360000 * (toFixed_n 1 (fdiv (of_nat S) 3600000) + 1)"
    by (simp only: y)
  from y0 show "0 \<le> fdiv (of_nat S) 3600000"
    by (simp add: y)
qed

lemma nine_minutes: "toFixed 1 (fdiv 540000 3600000) = ''0.1''"
  by (simp add: fl_eval str_eval)

section \<open>Strings\<close>

lemma endsWith_dot: "endsWith s ''.'' \<longleftrightarrow> s \<noteq> [] \<and> last s = CHR ''.''"
proof (cases s rule: rev_cases)
  case Nil
  then show ?thesis by (simp add: endsWith_def)
next
  case (snoc ys y)
  then show ?thesis by (auto simp add: endsWith_def)
qed

lemma lt10_cases:
  "(d::nat) < 10 \<Longrightarrow>
   d = 0 \<or> d = 1 \<or> d = 2 \<or> d = 3 \<or> d = 4 \<or> d = 5 \<or> d = 6 \<or> d = 7 \<or> d = 8 \<or> d = 9"
  by arith

lemma digit_val_char: "d < 10 \<Longrightarrow> digit_val (digit_char d) = d"
  by (drule lt10_cases) (auto simp add: digit_val_def digit_char_def)

text \<open>Reading the digits of \<open>n\<close> back gives \<open>n\<close>, so different numbers print differently.\<close>

lemma digits_value_digits: "foldl (\<lambda>a c. 10 * a + digit_val c) 0 (digits n) = n"
proof (induction n rule: digits.induct)
  case (1 n)
  show ?case
  proof (cases "n < 10")
    case True
    then show ?thesis by (subst digits.simps) (simp add: digit_val_char)
  next
    case False
    with 1 show ?thesis by (subst digits.simps) (simp add: digit_val_char)
  qed
qed

lemma digits_inj: "digits m = digits n \<longleftrightarrow> m = n"
  by (metis digits_value_digits)

section \<open>The description\<close>

text \<open>
  Claim C9. For every playlist the description put on the page is \<open>data.description\<close>
  itself when that already ends with a full stop, and \<open>data.description\<close> followed by a
  full stop otherwise; either way it ends with a full stop. (The page passes this string
  through the HTML entity decoder, which is outside the model.)
\<close>

theorem description_full_stop:
  "description_shown data =
     (if description data \<noteq> [] \<and> last (description data) = CHR ''.''
      then description data else description data @ ''.'')
   \<and> description_shown data \<noteq> [] \<and> last (description_shown data) = CHR ''.''"
  by (simp add: description_shown_def endsWith_dot)

theorem description_full_stop_witness:
  "description_shown \<lparr>description = ''Songs for the road'', total = 3\<rparr> = ''Songs for the road.''
   \<and> description_shown \<lparr>description = ''Done.'', total = 3\<rparr> = ''Done.''
   \<and> description_shown \<lparr>description = '''', total = 0\<rparr> = ''.''"
  using description_full_stop [of "\<lparr>description = ''Songs for the road'', total = 3\<rparr>"]
    description_full_stop [of "\<lparr>description = ''Done.'', total = 3\<rparr>"]
    description_full_stop [of "\<lparr>description = '''', total = 0\<rparr>"]
  by simp

section \<open>Printing whole numbers\<close>

lemma digits_times_10: "0 < n \<Longrightarrow> digits (n * 10) = digits n @ ''0''"
  by (subst digits.simps) (simp add: digit_char_def)

lemma digits_times_pow10: "0 < n \<Longrightarrow> digits (n * 10 ^ m) = digits n @ replicate m (CHR ''0'')"
proof (induction m)
  case 0
  show ?case by simp
next
  case (Suc m)
  have "n * 10 ^ Suc m = (n * 10 ^ m) * 10" by simp
  moreover from Suc.prems have "0 < n * 10 ^ m" by simp
  ultimately have "digits (n * 10 ^ Suc m) = digits (n * 10 ^ m) @ ''0''"
    by (simp only: digits_times_10)
  with Suc show ?case by (simp add: replicate_append_same)
qed

lemma digit_char_range: "d < 10 \<Longrightarrow> digit_char d \<in> set ''0123456789''"
  by (drule lt10_cases) (auto simp add: digit_char_def)

lemma digits_chars: "set (digits n) \<subseteq> set ''0123456789''"
proof (induction n rule: digits.induct)
  case (1 n)
  show ?case
  proof (cases "n < 10")
    case True
    then show ?thesis using digit_char_range [of n] by (subst digits.simps) simp
  next
    case False
    with 1 show ?thesis using digit_char_range [of "n mod 10"]
      by (subst digits.simps) simp
  qed
qed

text \<open>A number from \<open>2 ^ 53\<close> on is not rounded below \<open>2 ^ 53\<close>.\<close>

lemma round_ties_even_floor: "\<lfloor>y\<rfloor> \<le> round_ties_even y"
  by (simp add: round_ties_even_def Let_def)

lemma fl_above:
  assumes "2 ^ 53 \<le> x"
  shows "2 ^ 53 \<le> fl x"
proof -
  define e where "e = ilog2 x"
  define u where "u = pow2 (e - 52)"
  from assms have x: "0 < x" by (simp add: order.strict_trans2)
  have u: "0 < u" by (simp add: u_def pow2_pos)
  have "pow2 53 \<le> x" using assms by (simp add: pow2_def)
  also have "x < pow2 (e + 1)" using ilog2_bounds [OF x] by (simp add: e_def)
  finally have "53 < e + 1" by (rule pow2_less_imp)
  then have e: "53 \<le> e" by simp
  then have "max (ilog2 \<bar>x\<bar> - 52) (- 1074) = e - 52"
    using x by (simp add: e_def)
  then have fl: "fl x = of_int (round_ties_even (x / u)) * u"
    using x by (simp add: fl_def u_def Let_def)
  have p: "pow2 e = 2 ^ 52 * u"
    using pow2_add_nat [of "e - 52" 52] by (simp add: u_def)
  have "pow2 e \<le> x" using ilog2_bounds [OF x] by (simp add: e_def)
  then have "2 ^ 52 * u \<le> x" by (simp only: p)
  then have "2 ^ 52 \<le> x / u" using u by (simp add: field_simps)
  then have "of_int (2 ^ 52) \<le> x / u" by simp
  then have "2 ^ 52 \<le> \<lfloor>x / u\<rfloor>" by (simp only: le_floor_iff)
  also have "\<dots> \<le> round_ties_even (x / u)" by (rule round_ties_even_floor)
  finally have "(2::real) ^ 52 \<le> of_int (round_ties_even (x / u))"
    by (metis of_int_le_iff of_int_numeral of_int_power)
  then have "2 ^ 52 * u \<le> of_int (round_ties_even (x / u)) * u"
    using u by (simp only: mult_le_cancel_right) simp
  then have "pow2 e \<le> fl x" by (simp only: p fl)
  moreover have "pow2 53 \<le> pow2 e" using e by (rule pow2_mono)
  ultimately show ?thesis by (simp add: pow2_def)
qed

lemma fl_nat_small:
  assumes "fl (of_nat v) = of_nat X" and "X < 2 ^ 53"
  shows "v = X"
proof (cases "v < 2 ^ 53")
  case True
  with assms(1) show ?thesis by (simp add: fl_of_nat)
next
  case False
  then have "2 ^ 53 \<le> v" by simp
  then have "(2::real) ^ 53 \<le> of_nat v"
    by (metis of_nat_le_iff of_nat_numeral of_nat_power)
  then have "2 ^ 53 \<le> fl (of_nat v)" by (rule fl_above)
  with assms(1) have "(2::real) ^ 53 \<le> of_nat X" by simp
  then have "2 ^ 53 \<le> X"
    by (metis of_nat_le_iff of_nat_numeral of_nat_power)
  with assms(2) show ?thesis by simp
qed

lemma candidate_denotes: "candidate X m = Some s \<Longrightarrow> fl (of_nat (s * 10 ^ m)) = of_nat X"
  by (auto simp add: candidate_def Let_def split: if_splits)

lemma shortest_cases:
  "shortest X m = (s, k) \<Longrightarrow> (s = X \<and> k = 0) \<or> fl (of_nat (s * 10 ^ k)) = of_nat X"
proof (induction m)
  case 0
  then show ?case by simp
next
  case (Suc m)
  then show ?case
    by (cases "candidate X (Suc m)") (auto dest: candidate_denotes)
qed

lemma shortest_small:
  assumes "shortest X m = (s, k)" and "X < 2 ^ 53"
  shows "s * 10 ^ k = X"
  using shortest_cases [OF assms(1)] fl_nat_small [OF _ assms(2)] by auto

lemma toString_shape:
  assumes "X < 10 ^ 21" and "shortest X (length (digits X) - 1) = (s, k)"
  shows "toString (of_nat X) = digits s @ replicate k (CHR ''0'')"
  using assms by (simp add: toString_def Let_def)

lemma toString_small:
  assumes "X < 2 ^ 53"
  shows "toString (of_nat X) = digits X"
proof -
  obtain s k where sk: "shortest X (length (digits X) - 1) = (s, k)"
    by (cases "shortest X (length (digits X) - 1)")
  from assms have "X < 10 ^ 21" by simp
  then have shape: "toString (of_nat X) = digits s @ replicate k (CHR ''0'')"
    using sk by (rule toString_shape)
  from sk assms have v: "s * 10 ^ k = X" by (rule shortest_small)
  show ?thesis
  proof (cases "X = 0")
    case True
    then have "shortest X (length (digits X) - 1) = (0, 0)"
      by (simp add: digits.simps)
    with sk shape True show ?thesis by simp
  next
    case False
    with v have "0 < s" by (cases s) simp_all
    then have "digits (s * 10 ^ k) = digits s @ replicate k (CHR ''0'')"
      by (rule digits_times_pow10)
    with shape v show ?thesis by simp
  qed
qed

lemma toString_exponent:
  assumes "10 ^ 21 \<le> X"
  shows "CHR ''e'' \<in> set (toString (of_nat X))"
proof -
  obtain s k where "shortest X (length (digits X) - 1) = (s, k)"
    by (cases "shortest X (length (digits X) - 1)")
  with assms show ?thesis by (simp add: toString_def Let_def)
qed

lemma toString_large:
  assumes "10 ^ 21 \<le> X" and "shortest X (length (digits X) - 1) = (s, m)"
  shows "toString (of_nat X) =
    (let e = m + length (digits s) - 1;
         ds = rev (dropWhile (\<lambda>c. c = CHR ''0'') (rev (digits s)))
     in if length ds = 1 then ds @ ''e+'' @ digits e
        else take 1 ds @ ''.'' @ drop 1 ds @ ''e+'' @ digits e)"
  using assms by (simp add: toString_def Let_def)

text \<open>A count of \<open>10 ^ 21\<close> tracks would be shown as \<open>1e+21 tracks\<close>.\<close>

lemma toString_sextillion: "toString (of_nat (10 ^ 21)) = ''1e+21''"
proof -
  have f1: "fl (10 ^ 21) = 10 ^ 21"
    by (simp add: fl_eval)
  have f2: "fl (2 * 10 ^ 21) \<noteq> 10 ^ 21"
    by (simp add: fl_eval)
  have "candidate (10 ^ 21) 21 = Some 1"
    using f1 f2 by (simp add: candidate_def Let_def)
  then have "shortest (10 ^ 21) (Suc 20) = (1, 21)"
    unfolding shortest.simps by simp
  moreover have "length (digits (10 ^ 21)) - 1 = Suc 20"
    by (simp add: digits.simps digit_char_def)
  ultimately have "shortest (10 ^ 21) (length (digits (10 ^ 21)) - 1) = (1, 21)"
    by (simp only:)
  then have "toString (of_nat (10 ^ 21)) =
    (let e = 21 + length (digits 1) - 1;
         ds = rev (dropWhile (\<lambda>c. c = CHR ''0'') (rev (digits 1)))
     in if length ds = 1 then ds @ ''e+'' @ digits e
        else take 1 ds @ ''.'' @ drop 1 ds @ ''e+'' @ digits e)"
    by (rule toString_large [rotated]) simp
  then show ?thesis
    by (simp add: digits.simps digit_char_def del: of_nat_power of_nat_numeral)
qed

text \<open>A number prints as the digits of a whole number below \<open>2 ^ 53\<close> only if it is that number.\<close>

lemma toString_eq_digits:
  assumes "toString (of_nat T) = digits n" and "n < 2 ^ 53"
  shows "T = n"
proof (cases "T < 2 ^ 53")
  case True
  with assms(1) show ?thesis by (simp add: toString_small digits_inj)
next
  case big: False
  show ?thesis
  proof (cases "T < 10 ^ 21")
    case True
    obtain s k where sk: "shortest T (length (digits T) - 1) = (s, k)"
      by (cases "shortest T (length (digits T) - 1)")
    with True have shape: "toString (of_nat T) = digits s @ replicate k (CHR ''0'')"
      by (rule toString_shape)
    from shortest_cases [OF sk] show ?thesis
    proof
      assume "s = T \<and> k = 0"
      with shape assms(1) show ?thesis by (simp add: digits_inj)
    next
      assume fl: "fl (of_nat (s * 10 ^ k)) = of_nat T"
      from big have "T \<noteq> 0" by auto
      have "s \<noteq> 0"
      proof
        assume "s = 0"
        with fl have "T = 0" by (simp add: fl_def)
        with \<open>T \<noteq> 0\<close> show False by simp
      qed
      then have "digits (s * 10 ^ k) = digits s @ replicate k (CHR ''0'')"
        by (simp add: digits_times_pow10)
      with shape assms(1) have "digits (s * 10 ^ k) = digits n" by simp
      then have "s * 10 ^ k = n" by (simp only: digits_inj)
      with fl assms(2) show ?thesis by (simp add: fl_of_nat)
    qed
  next
    case False
    then have "CHR ''e'' \<in> set (toString (of_nat T))" by (simp add: toString_exponent)
    with assms(1) digits_chars [of n] show ?thesis by auto
  qed
qed

section \<open>Rendering the page\<close>

lemma Track_renders:
  "(\<exists>r. Track t index = Inr r) \<longleftrightarrow> images (album t) \<noteq> [] \<and> artists t \<noteq> []"
  by (simp add: Track_def split: list.splits)

lemma map_Track_length: "map_Track index ts = Inr rs \<Longrightarrow> length rs = length ts"
proof (induction ts arbitrary: index rs)
  case Nil
  then show ?case by simp
next
  case (Cons t ts)
  then show ?case by (auto split: sum.splits)
qed

lemma map_Track_renders:
  "(\<exists>rs. map_Track index ts = Inr rs) \<longleftrightarrow>
     (\<forall>t\<in>set ts. images (album t) \<noteq> [] \<and> artists t \<noteq> [])"
proof (induction ts arbitrary: index)
  case Nil
  show ?case by simp
next
  case (Cons t ts)
  show ?case
    using Cons.IH [of "Suc index"] Track_renders [of t index]
    by (auto split: sum.splits)
qed

text \<open>
  The page is displayed exactly when every track has a cover image and an artist; it then
  has the statistics line of \<open>stats\<close> and one row for each track.
\<close>

lemma Playlist_renders:
  "(\<exists>v. Playlist data tracks = Inr v) \<longleftrightarrow>
     (\<forall>t\<in>set tracks. images (album t) \<noteq> [] \<and> artists t \<noteq> [])"
  using map_Track_renders [of 0 tracks]
  by (auto simp add: Playlist_def split: sum.splits)

lemma Playlist_view:
  assumes "Playlist data tracks = Inr v"
  shows "description_text v = description_shown data"
    and "statistics v = stats data tracks"
    and "length (track_list v) = length tracks"
  using assms map_Track_length [of 0 tracks]
  by (auto simp add: Playlist_def split: sum.splits)

lemma Playlist_preview_track:
  "Playlist data [preview_track] =
     Inr \<lparr>description_text = description_shown data, statistics = stats data [preview_track],
          track_list = [\<lparr>separator = False, progress_bar = True,
            image_src = ''https://i.scdn.co/image/demo'', artist_shown = ''Demo''\<rparr>]\<rparr>"
  by (simp add: Playlist_def Track_def preview_track_def cover_art_def truthy_def)

section \<open>The total duration\<close>

lemma duration_small:
  assumes "sum_list (map duration_ms tracks) < 2 ^ 53"
  shows "duration tracks = toFixed 1 (fdiv (of_nat (sum_list (map duration_ms tracks))) 3600000)"
proof -
  have "foldl (\<lambda>acc t. fadd acc (of_nat (duration_ms t))) 0 tracks =
      of_nat (sum_list (map duration_ms tracks))"
    using reduce_exact [of 0 tracks] assms by simp
  then show ?thesis by (simp add: duration_def)
qed

text \<open>
  The number of tenths that \<open>toFixed(1)\<close> shows for the exact quotient \<open>S / 3600000\<close>
  moved up by \<open>j\<close> twentieths.
\<close>

lemma tenths_exact:
  "toFixed_n 1 (real S / 3600000 + real j / 20) = (S + 180000 * (j + 1)) div 360000"
proof -
  have "\<bar>real S / 3600000 + real j / 20\<bar> * 10 ^ 1 + 1 / 2 =
      real (S + 180000 * (j + 1)) / real 360000"
    by (simp add: field_simps)
  then have "\<lfloor>\<bar>real S / 3600000 + real j / 20\<bar> * 10 ^ 1 + 1 / 2\<rfloor> =
      \<lfloor>real (S + 180000 * (j + 1)) / real 360000\<rfloor>"
    by (rule arg_cong)
  also have "\<dots> = int ((S + 180000 * (j + 1)) div 360000)"
    by (rule floor_divide_of_nat_eq)
  finally show ?thesis by (simp add: toFixed_n_def)
qed

lemma hours_tenths:
  assumes "S < 2 ^ 53"
  shows "S mod 360000 \<noteq> 180000 \<Longrightarrow>
      toFixed_n 1 (fdiv (of_nat S) 3600000) = (S + 180000) div 360000"
    and "S mod 360000 = 180000 \<Longrightarrow>
      toFixed_n 1 (fdiv (of_nat S) 3600000) = S div 360000 \<or>
      toFixed_n 1 (fdiv (of_nat S) 3600000) = S div 360000 + 1"
proof -
  define n where "n = toFixed_n 1 (fdiv (of_nat S) 3600000)"
  from hours_bracket(1,2) [OF assms]
  have lo: "360000 * n \<le> S + 180000" and hi: "S + 180000 \<le> 360000 * (n + 1)"
    by (simp_all add: n_def)
  show "n = (S + 180000) div 360000" if "S mod 360000 \<noteq> 180000"
  proof -
    have "S + 180000 \<noteq> 360000 * (n + 1)"
    proof
      assume "S + 180000 = 360000 * (n + 1)"
      then have "S = 180000 + n * 360000" by simp
      then have "S mod 360000 = 180000" by simp
      with that show False by simp
    qed
    with hi have "S + 180000 < 360000 * (n + 1)" by simp
    with lo show ?thesis by (simp add: div_nat_eqI mult.commute)
  qed
  show "n = S div 360000 \<or> n = S div 360000 + 1" if "S mod 360000 = 180000"
  proof -
    define k where "k = S div 360000"
    have "S = 360000 * k + S mod 360000" by (simp add: k_def)
    with that have S: "S = 360000 * k + 180000" by simp
    from lo hi have "n \<le> k + 1" "k \<le> n" unfolding S by simp_all
    then show ?thesis unfolding k_def [symmetric] by arith
  qed
qed

text \<open>
  Claim C5, as stated: the duration entry is the sum of the tracks' \<open>duration_ms\<close> divided
  by 3600000, rendered to one decimal place. It fails for two tracks of 200 and 340
  seconds: the quotient is 0.15, which rendered to one decimal place is \<open>0.2\<close>,
  and the page shows \<open>0.1 hours\<close>, because the binary64 number nearest to 0.15 lies
  below it.
\<close>

theorem duration_tie_counterexample:
  "Playlist \<lparr>description = ''Mix'', total = 2\<rparr>
     [preview_track\<lparr>duration_ms := 200000\<rparr>, preview_track\<lparr>duration_ms := 340000\<rparr>] =
     Inr \<lparr>description_text = ''Mix.'',
          statistics = [''0.1 hours'', ''2 tracks'', ''1 artists''],
          track_list =
            [\<lparr>separator = False, progress_bar = True,
               image_src = ''https://i.scdn.co/image/demo'', artist_shown = ''Demo''\<rparr>,
             \<lparr>separator = True, progress_bar = True,
               image_src = ''https://i.scdn.co/image/demo'', artist_shown = ''Demo''\<rparr>]\<rparr>
   \<and> hours [preview_track\<lparr>duration_ms := 200000\<rparr>, preview_track\<lparr>duration_ms := 340000\<rparr>]
       = 15 / 100
   \<and> duration_exact
       [preview_track\<lparr>duration_ms := 200000\<rparr>, preview_track\<lparr>duration_ms := 340000\<rparr>]
       = ''0.2''"
proof -
  let ?ts = "[preview_track\<lparr>duration_ms := 200000\<rparr>, preview_track\<lparr>duration_ms := 340000\<rparr>]"
  have total: "sum_list (map duration_ms ?ts) = 540000" by simp
  have "duration ?ts = toFixed 1 (fdiv (of_nat (sum_list (map duration_ms ?ts))) 3600000)"
    by (rule duration_small) (simp add: total del: One_nat_def)
  then have shown: "duration ?ts = ''0.1''"
    unfolding total by (simp add: nine_minutes del: One_nat_def)
  have artists: "uniqueArtists_size ?ts = 1"
    by (simp add: uniqueArtists_size_def uniqueArtists_def collect_artists_def add_artist_def
        preview_track_def)
  have line: "stats \<lparr>description = ''Mix'', total = 2\<rparr> ?ts =
      [''0.1 hours'', ''2 tracks'', ''1 artists'']"
    using toString_small [of 2]
    by (simp add: stats_def shown artists digits.simps digit_char_def del: One_nat_def)
  have page: "Playlist \<lparr>description = ''Mix'', total = 2\<rparr> ?ts =
     Inr \<lparr>description_text = ''Mix.'',
          statistics = [''0.1 hours'', ''2 tracks'', ''1 artists''],
          track_list =
            [\<lparr>separator = False, progress_bar = True,
               image_src = ''https://i.scdn.co/image/demo'', artist_shown = ''Demo''\<rparr>,
             \<lparr>separator = True, progress_bar = True,
               image_src = ''https://i.scdn.co/image/demo'', artist_shown = ''Demo''\<rparr>]\<rparr>"
    unfolding Playlist_def line
    by (simp add: Track_def preview_track_def cover_art_def truthy_def
        description_shown_def endsWith_def)
  have quotient: "hours ?ts = 15 / 100"
    unfolding hours_def total by simp
  have "duration_exact ?ts = toFixed 1 (15 / 100)"
    unfolding duration_exact_def quotient ..
  also have "\<dots> = ''0.2''" by (simp add: str_eval)
  finally show ?thesis using page quotient by blast
qed


text \<open>
  Claim C5, amended. Whenever the page is displayed (for a total below \<open>2 ^ 53\<close>
  milliseconds, up to which the additions are exact), the duration entry is the binary64
  quotient of the sum of the tracks' \<open>duration_ms\<close> by 3600000, shown by \<open>toFixed(1)\<close> and
  followed by \<open>hours\<close>. It is the exact quotient rendered to one decimal place unless that
  quotient lies halfway between two tenths (the sum is an odd multiple of 180000 ms);
  then it is one of these two tenths.
\<close>

theorem duration_stat:
  assumes "Playlist data tracks = Inr v"
    and "sum_list (map duration_ms tracks) < 2 ^ 53"
  shows "statistics v ! 0 = duration tracks @ '' hours''
    \<and> duration tracks =
        toFixed 1 (fdiv (of_nat (sum_list (map duration_ms tracks))) 3600000)
    \<and> (sum_list (map duration_ms tracks) mod 360000 \<noteq> 180000 \<longrightarrow>
          duration tracks = duration_exact tracks)
    \<and> (sum_list (map duration_ms tracks) mod 360000 = 180000 \<longrightarrow>
          duration tracks = toFixed 1 (hours tracks - 1 / 20) \<or>
          duration tracks = toFixed 1 (hours tracks + 1 / 20))"
proof -
  define S where "S = sum_list (map duration_ms tracks)"
  define q where "q = fdiv (of_nat S) 3600000"
  have entry: "statistics v ! 0 = duration tracks @ '' hours''"
    by (simp add: Playlist_view(2) [OF assms(1)] stats_def)
  have shown: "duration tracks = toFixed 1 q"
    unfolding q_def S_def using assms(2) by (rule duration_small)
  from assms(2) have S: "S < 2 ^ 53" by (simp add: S_def)
  have q0: "0 \<le> q" unfolding q_def using S by (rule hours_bracket(3))
  have string: "toFixed 1 x = toFixed 1 q" if "0 \<le> x" "toFixed_n 1 x = toFixed_n 1 q" for x
    using that q0 by (simp only: toFixed_1)
  have h: "hours tracks = real S / 3600000" by (simp add: hours_def S_def)
  have exact: "toFixed 1 q = duration_exact tracks" if "S mod 360000 \<noteq> 180000"
  proof -
    have "toFixed_n 1 (hours tracks) = (S + 180000) div 360000"
      using tenths_exact [of S 0] by (simp add: h)
    also have "\<dots> = toFixed_n 1 q"
      unfolding q_def using hours_tenths(1) [OF S that] by simp
    finally have "toFixed 1 (hours tracks) = toFixed 1 q"
      by (rule string [rotated]) (simp add: h)
    then show ?thesis by (simp add: duration_exact_def)
  qed
  have tie: "toFixed 1 q = toFixed 1 (hours tracks - 1 / 20) \<or>
      toFixed 1 q = toFixed 1 (hours tracks + 1 / 20)" if "S mod 360000 = 180000"
  proof -
    define k where "k = S div 360000"
    have "S = 360000 * k + S mod 360000" by (simp add: k_def)
    with that have Sk: "S = 360000 * k + 180000" by simp
    define R where "R = 360000 * k"
    have below: "hours tracks - 1 / 20 = real R / 3600000 + real 0 / 20"
      by (simp add: h Sk R_def field_simps)
    have above: "hours tracks + 1 / 20 = real R / 3600000 + real 2 / 20"
      by (simp add: h Sk R_def field_simps)
    have nb: "toFixed_n 1 (hours tracks - 1 / 20) = k"
      unfolding below tenths_exact by (simp add: R_def)
    have na: "toFixed_n 1 (hours tracks + 1 / 20) = k + 1"
      unfolding above tenths_exact by (simp add: R_def)
    have pos: "0 \<le> hours tracks - 1 / 20" "0 \<le> hours tracks + 1 / 20"
      by (simp_all add: h Sk)
    from hours_tenths(2) [OF S that]
    have "toFixed_n 1 q = k \<or> toFixed_n 1 q = k + 1"
      by (simp add: q_def k_def)
    then show ?thesis
    proof
      assume "toFixed_n 1 q = k"
      with nb have "toFixed 1 (hours tracks - 1 / 20) = toFixed 1 q"
        by (intro string pos) simp
      then show ?thesis by simp
    next
      assume "toFixed_n 1 q = k + 1"
      with na have "toFixed 1 (hours tracks + 1 / 20) = toFixed 1 q"
        by (intro string pos) simp
      then show ?thesis by simp
    qed
  qed
  from entry shown exact tie show ?thesis
    unfolding q_def S_def by simp
qed

lemma ninety_two_minutes: "toFixed 1 (fdiv 5520000 3600000) = ''1.5''"
  by (simp add: fl_eval str_eval)

theorem duration_stat_witness:
  "Playlist \<lparr>description = ''Mix'', total = 2\<rparr>
     [preview_track\<lparr>duration_ms := 3600000\<rparr>, preview_track\<lparr>duration_ms := 1920000\<rparr>] =
     Inr \<lparr>description_text = ''Mix.'',
          statistics = [''1.5 hours'', ''2 tracks'', ''1 artists''],
          track_list =
            [\<lparr>separator = False, progress_bar = True,
               image_src = ''https://i.scdn.co/image/demo'', artist_shown = ''Demo''\<rparr>,
             \<lparr>separator = True, progress_bar = True,
               image_src = ''https://i.scdn.co/image/demo'', artist_shown = ''Demo''\<rparr>]\<rparr>
   \<and> sum_list (map duration_ms
        [preview_track\<lparr>duration_ms := 3600000\<rparr>, preview_track\<lparr>duration_ms := 1920000\<rparr>])
       < 2 ^ 53
   \<and> duration_exact
        [preview_track\<lparr>duration_ms := 3600000\<rparr>, preview_track\<lparr>duration_ms := 1920000\<rparr>]
       = ''1.5''"
proof -
  let ?data = "\<lparr>description = ''Mix'', total = 2\<rparr>"
  let ?ts = "[preview_track\<lparr>duration_ms := 3600000\<rparr>, preview_track\<lparr>duration_ms := 1920000\<rparr>]"
  let ?rows = "[\<lparr>separator = False, progress_bar = True,
               image_src = ''https://i.scdn.co/image/demo'', artist_shown = ''Demo''\<rparr>,
             \<lparr>separator = True, progress_bar = True,
               image_src = ''https://i.scdn.co/image/demo'', artist_shown = ''Demo''\<rparr>]"
  have total: "sum_list (map duration_ms ?ts) = 5520000" by simp
  have small: "sum_list (map duration_ms ?ts) < 2 ^ 53"
    unfolding total by simp
  have page: "Playlist ?data ?ts =
      Inr \<lparr>description_text = ''Mix.'', statistics = stats ?data ?ts, track_list = ?rows\<rparr>"
    by (simp add: Playlist_def Track_def preview_track_def cover_art_def
        truthy_def description_shown_def endsWith_def)
  note th = duration_stat [OF page small]
  from th have "duration ?ts =
      toFixed 1 (fdiv (of_nat (sum_list (map duration_ms ?ts))) 3600000)"
    by (elim conjE)
  then have shown: "duration ?ts = ''1.5''"
    unfolding total by (simp add: ninety_two_minutes del: One_nat_def)
  have "sum_list (map duration_ms ?ts) mod 360000 \<noteq> 180000"
    unfolding total by simp
  moreover from th have "sum_list (map duration_ms ?ts) mod 360000 \<noteq> 180000 \<longrightarrow>
      duration ?ts = duration_exact ?ts"
    by (elim conjE)
  ultimately have exact: "duration_exact ?ts = ''1.5''"
    using shown by simp
  have artists: "uniqueArtists_size ?ts = 1"
    by (simp add: uniqueArtists_size_def uniqueArtists_def collect_artists_def add_artist_def
        preview_track_def)
  have line: "stats ?data ?ts = [''1.5 hours'', ''2 tracks'', ''1 artists'']"
    using toString_small [of 2]
    by (simp add: stats_def shown artists digits.simps digit_char_def del: One_nat_def)
  from page small exact show ?thesis
    unfolding line by blast
qed

section \<open>The track count\<close>

lemma count_in_exponent_form:
  "stats \<lparr>description = d, total = 10 ^ 21\<rparr> tracks ! 1 = ''1e+21 tracks''"
  using toString_sextillion by (simp add: stats_def)

lemma half_minute: "toFixed 1 (fdiv 30000 3600000) = ''0.0''"
  by (simp add: fl_eval str_eval)

lemma stats_preview_track:
  "stats data [preview_track] =
     [''0.0 hours'', toString (of_nat (total data)) @ '' tracks'', ''1 artists'']"
proof -
  have "duration [preview_track] =
      toFixed 1 (fdiv (of_nat (sum_list (map duration_ms [preview_track]))) 3600000)"
    by (rule duration_small) (simp add: preview_track_def)
  then have shown: "duration [preview_track] = ''0.0''"
    by (simp add: preview_track_def half_minute del: One_nat_def)
  have artists: "uniqueArtists_size [preview_track] = 1"
    by (simp add: uniqueArtists_size_def uniqueArtists_def collect_artists_def add_artist_def
        preview_track_def)
  show ?thesis
    by (simp add: stats_def shown artists digits.simps digit_char_def del: One_nat_def)
qed

text \<open>
  Claim C8, as stated: the track-count entry of the statistics line is the number of rows
  of the track list. It fails for a playlist whose metadata reports three tracks when
  \<open>tracks\<close> holds one: the entry reads \<open>3 tracks\<close> above a list of one row.
\<close>

theorem track_count_vs_rows_counterexample:
  "Playlist \<lparr>description = ''Mix'', total = 3\<rparr> [preview_track] =
     Inr \<lparr>description_text = ''Mix.'',
          statistics = [''0.0 hours'', ''3 tracks'', ''1 artists''],
          track_list = [\<lparr>separator = False, progress_bar = True,
            image_src = ''https://i.scdn.co/image/demo'', artist_shown = ''Demo''\<rparr>]\<rparr>
   \<and> toString (of_nat (length [\<lparr>separator = False, progress_bar = True,
            image_src = ''https://i.scdn.co/image/demo'', artist_shown = ''Demo''\<rparr>]))
        @ '' tracks'' = ''1 tracks''
   \<and> [''0.0 hours'', ''3 tracks'', ''1 artists''] ! 1 \<noteq>
       toString (of_nat (length [\<lparr>separator = False, progress_bar = True,
            image_src = ''https://i.scdn.co/image/demo'', artist_shown = ''Demo''\<rparr>]))
        @ '' tracks''"
  using toString_small [of 3] toString_small [of 1]
  by (simp add: Playlist_preview_track stats_preview_track description_shown_def endsWith_def
      digits.simps digit_char_def)

text \<open>
  Claim C8, amended. Whenever the page is displayed, the track-count entry shows
  \<open>data.tracks.total\<close>, the count in the playlist's metadata, as a template literal prints
  it (its digits, for a count below \<open>2 ^ 53\<close>); the track list has one row for each element
  of \<open>tracks\<close> (of which an array has fewer than \<open>2 ^ 32\<close>); and the entry is the number of
  rows exactly when \<open>data.tracks.total\<close> is the length of \<open>tracks\<close>.
\<close>

theorem track_count_is_total:
  assumes "Playlist data tracks = Inr v" and "length tracks < 2 ^ 32"
  shows "statistics v ! 1 = toString (of_nat (total data)) @ '' tracks''
    \<and> (total data < 2 ^ 53 \<longrightarrow> statistics v ! 1 = digits (total data) @ '' tracks'')
    \<and> length (track_list v) = length tracks
    \<and> (statistics v ! 1 = toString (of_nat (length (track_list v))) @ '' tracks''
         \<longleftrightarrow> total data = length tracks)"
proof -
  note view = Playlist_view [OF assms(1)]
  have entry: "statistics v ! 1 = toString (of_nat (total data)) @ '' tracks''"
    by (simp add: view(2) stats_def)
  have "(2::nat) ^ 32 \<le> 2 ^ 53" by simp
  with assms(2) have small: "length tracks < 2 ^ 53" by (rule less_le_trans)
  then have rows: "toString (of_nat (length tracks)) = digits (length tracks)"
    by (rule toString_small)
  have "total data = length tracks"
    if "toString (of_nat (total data)) = digits (length tracks)"
    using that small by (rule toString_eq_digits)
  with rows have "toString (of_nat (total data)) = toString (of_nat (length tracks))
      \<longleftrightarrow> total data = length tracks"
    by auto
  with entry view(3) show ?thesis by (simp add: toString_small)
qed

theorem track_count_is_total_witness:
  "Playlist \<lparr>description = ''Mix'', total = 1\<rparr> [preview_track] =
     Inr \<lparr>description_text = ''Mix.'',
          statistics = [''0.0 hours'', ''1 tracks'', ''1 artists''],
          track_list = [\<lparr>separator = False, progress_bar = True,
            image_src = ''https://i.scdn.co/image/demo'', artist_shown = ''Demo''\<rparr>]\<rparr>
   \<and> length [preview_track] < 2 ^ 32
   \<and> [''0.0 hours'', ''1 tracks'', ''1 artists''] ! 1 =
       toString (of_nat (length [\<lparr>separator = False, progress_bar = True,
            image_src = ''https://i.scdn.co/image/demo'', artist_shown = ''Demo''\<rparr>]))
        @ '' tracks''"
proof -
  let ?data = "\<lparr>description = ''Mix'', total = 1\<rparr>"
  let ?row = "\<lparr>separator = False, progress_bar = True,
            image_src = ''https://i.scdn.co/image/demo'', artist_shown = ''Demo''\<rparr>"
  let ?v = "\<lparr>description_text = ''Mix.'',
          statistics = [''0.0 hours'', ''1 tracks'', ''1 artists''], track_list = [?row]\<rparr>"
  have shown: "Playlist ?data [preview_track] = Inr ?v"
    using toString_small [of 1]
    by (simp add: Playlist_preview_track stats_preview_track description_shown_def
        endsWith_def digits.simps digit_char_def)
  have few: "length [preview_track] < 2 ^ 32" by simp
  from track_count_is_total [OF shown few]
  have "statistics ?v ! 1 = toString (of_nat (length (track_list ?v))) @ '' tracks''
      \<longleftrightarrow> total ?data = length [preview_track]"
    by (elim conjE)
  then have "[''0.0 hours'', ''1 tracks'', ''1 artists''] ! 1 =
      toString (of_nat (length [?row])) @ '' tracks''"
    by simp
  with shown few show ?thesis by blast
qed

section \<open>The artists of a playlist\<close>

subsection \<open>Which names are collected\<close>

lemma fst_increment: "map fst (increment n acc) = map fst acc"
  by (induction acc) auto

lemma find_name_None: "find (\<lambda>e. fst e = n) acc = None \<longleftrightarrow> n \<notin> set (map fst acc)"
  by (force simp add: find_None_iff)

lemma names_add_artist:
  "map fst (add_artist acc a) =
     (if name a \<in> set (map fst acc) \<or> name a = [] then map fst acc else map fst acc @ [name a])"
proof (cases "find (\<lambda>e. fst e = name a) acc")
  case None
  then have "name a \<notin> set (map fst acc)"
    using find_name_None [of "name a" acc] by simp
  with None show ?thesis by (simp add: add_artist_def)
next
  case (Some e)
  then have "name a \<in> set (map fst acc)"
    using find_name_None [of "name a" acc] by simp
  with Some show ?thesis by (simp add: add_artist_def fst_increment)
qed

lemma set_names_add_artist:
  "set (map fst (add_artist acc a)) = set (map fst acc) \<union> ({name a} - {[]})"
  by (auto simp add: names_add_artist)

lemma set_names_foldl_add:
  "set (map fst (foldl add_artist acc as)) = set (map fst acc) \<union> (name ` set as - {[]})"
proof (induction as arbitrary: acc)
  case Nil
  show ?case by simp
next
  case (Cons a as)
  show ?case unfolding foldl_Cons Cons.IH set_names_add_artist by auto
qed

lemma set_names_foldl_tracks:
  "set (map fst (foldl (\<lambda>acc t. foldl add_artist acc (artists t)) acc tracks)) =
     set (map fst acc) \<union> ((\<Union>t\<in>set tracks. name ` set (artists t)) - {[]})"
proof (induction tracks arbitrary: acc)
  case Nil
  show ?case by simp
next
  case (Cons t ts)
  show ?case unfolding foldl_Cons Cons.IH set_names_foldl_add by auto
qed

lemma uniqueArtists_eq:
  "uniqueArtists tracks = (\<Union>t\<in>set tracks. name ` set (artists t)) - {[]}"
  unfolding uniqueArtists_def collect_artists_def set_names_foldl_tracks by simp

text \<open>
  Claim C6, as stated: the artist-count entry is the number of distinct artist names in the
  artist lists of all tracks. It fails for a track whose only artist has the empty string
  as its name: one name occurs, and the page counts none, because the loop adds a name
  only when it is truthy (\<open>else if (artist.name)\<close>).
\<close>

theorem unique_artists_counterexample:
  "uniqueArtists_size
     [\<lparr>preview_url = None, duration_ms = 1, album = cover_art,
        artists = [\<lparr>name = ''''\<rparr>]\<rparr>] = 0
   \<and> card (\<Union>t\<in>set
       [\<lparr>preview_url = None, duration_ms = 1, album = cover_art,
          artists = [\<lparr>name = ''''\<rparr>]\<rparr>].
              name ` set (artists t)) = 1
   \<and> uniqueArtists_size
       [\<lparr>preview_url = None, duration_ms = 1, album = cover_art,
          artists = [\<lparr>name = ''''\<rparr>]\<rparr>]
       \<noteq> card (\<Union>t\<in>set
           [\<lparr>preview_url = None, duration_ms = 1, album = cover_art,
              artists = [\<lparr>name = ''''\<rparr>]\<rparr>].
              name ` set (artists t))"
  by (simp add: uniqueArtists_size_def uniqueArtists_def collect_artists_def add_artist_def)

text \<open>
  Claim C6, amended. For every list of tracks, the artist-count entry is the number of
  distinct non-empty artist names in the artist lists of all tracks.
\<close>

theorem unique_artists_nonempty_names:
  "uniqueArtists_size tracks = card ((\<Union>t\<in>set tracks. name ` set (artists t)) - {[]})
   \<and> stats data tracks ! 2 =
       digits (card ((\<Union>t\<in>set tracks. name ` set (artists t)) - {[]})) @ '' artists''"
  by (simp add: uniqueArtists_size_def uniqueArtists_eq stats_def)

theorem unique_artists_nonempty_names_witness:
  "uniqueArtists_size
     [\<lparr>preview_url = None, duration_ms = 1, album = cover_art,
        artists = [\<lparr>name = ''a''\<rparr>, \<lparr>name = ''b''\<rparr>]\<rparr>,
      \<lparr>preview_url = None, duration_ms = 1, album = cover_art,
        artists = [\<lparr>name = ''b''\<rparr>, \<lparr>name = ''''\<rparr>]\<rparr>] = 2"
  using unique_artists_nonempty_names [of
     "[\<lparr>preview_url = None, duration_ms = 1, album = cover_art,
        artists = [\<lparr>name = ''a''\<rparr>, \<lparr>name = ''b''\<rparr>]\<rparr>,
      \<lparr>preview_url = None, duration_ms = 1, album = cover_art,
        artists = [\<lparr>name = ''b''\<rparr>, \<lparr>name = ''''\<rparr>]\<rparr>]"]
  by (simp add: insert_Diff_if card_insert_if)

subsection \<open>How often a name is counted\<close>

lemma map_of_increment:
  "map_of (increment n acc) =
     (case map_of acc n of None \<Rightarrow> map_of acc | Some c \<Rightarrow> (map_of acc)(n \<mapsto> c + 1))"
proof (induction acc)
  case Nil
  show ?case by simp
next
  case (Cons e es)
  show ?case
  proof (cases "fst e = n")
    case True
    then show ?thesis by (cases e) auto
  next
    case False
    then show ?thesis using Cons.IH
      by (cases e) (auto split: option.splits simp add: fun_upd_twist)
  qed
qed

lemma counted_add_artist:
  assumes "counted acc seen"
  shows "counted (add_artist acc a) (seen @ [name a])"
proof -
  from assms have d: "distinct (map fst acc)"
    and m: "map_of acc = (\<lambda>n. if n \<in> set seen \<and> n \<noteq> [] then Some (count_list seen n) else None)"
    by (simp_all add: counted_def)
  have "dom (map_of acc) = set seen - {[]}"
    unfolding m by (auto simp add: dom_def)
  then have dom: "set (map fst acc) = set seen - {[]}"
    by (simp add: dom_map_of_conv_image_fst)
  show ?thesis
  proof (cases "find (\<lambda>e. fst e = name a) acc")
    case None
    then have notin: "name a \<notin> set (map fst acc)"
      using find_name_None [of "name a" acc] by simp
    show ?thesis
    proof (cases "name a = []")
      case True
      with None m d show ?thesis
        by (auto simp add: counted_def add_artist_def fun_eq_iff)
    next
      case False
      with notin dom have unseen: "name a \<notin> set seen" by auto
      then have "count_list seen (name a) = 0" by (simp add: count_list_0_iff)
      with None False m d notin unseen show ?thesis
        by (auto simp add: counted_def add_artist_def fun_eq_iff map_add_def)
    qed
  next
    case (Some e)
    then have isin: "name a \<in> set (map fst acc)"
      using find_name_None [of "name a" acc] by simp
    with dom have seen: "name a \<in> set seen" "name a \<noteq> []" by auto
    with m have "map_of acc (name a) = Some (count_list seen (name a))" by simp
    with Some m d seen show ?thesis
      by (auto simp add: counted_def add_artist_def fst_increment map_of_increment fun_eq_iff)
  qed
qed

lemma counted_foldl_add:
  "counted acc seen \<Longrightarrow> counted (foldl add_artist acc as) (seen @ map name as)"
proof (induction as arbitrary: acc seen)
  case Nil
  then show ?case by simp
next
  case (Cons a as)
  from Cons.IH [OF counted_add_artist [OF Cons.prems]] show ?case by simp
qed

lemma counted_foldl_tracks:
  "counted acc seen \<Longrightarrow>
   counted (foldl (\<lambda>acc t. foldl add_artist acc (artists t)) acc tracks) (seen @ artist_names tracks)"
proof (induction tracks arbitrary: acc seen)
  case Nil
  then show ?case by (simp add: artist_names_def)
next
  case (Cons t ts)
  from Cons.IH [OF counted_foldl_add [OF Cons.prems]] show ?case
    by (simp add: artist_names_def)
qed

lemma counted_collect: "counted (collect_artists tracks) (artist_names tracks)"
  using counted_foldl_tracks [of "[]" "[]" tracks]
  by (simp add: counted_def collect_artists_def)

lemma counted_entries:
  assumes "counted acc seen" "(n, c) \<in> set acc"
  shows "n \<in> set seen \<and> n \<noteq> [] \<and> c = count_list seen n"
proof -
  from assms(1) have d: "distinct (map fst acc)"
    and m: "map_of acc = (\<lambda>n. if n \<in> set seen \<and> n \<noteq> [] then Some (count_list seen n) else None)"
    by (simp_all add: counted_def)
  from d assms(2) have "map_of acc n = Some c" by simp
  then have "(if n \<in> set seen \<and> n \<noteq> [] then Some (count_list seen n) else None) = Some c"
    by (simp add: m)
  then show ?thesis by (simp split: if_splits)
qed

lemma counted_complete:
  assumes "counted acc seen" "n \<in> set seen" "n \<noteq> []"
  shows "(n, count_list seen n) \<in> set acc"
proof -
  from assms have "map_of acc n = Some (count_list seen n)" by (simp add: counted_def)
  then show ?thesis by (rule map_of_SomeD)
qed


subsection \<open>The comparator\<close>

text \<open>
  The comparator asks for the entry with the larger count first, and answers \<open>-1\<close> for
  two entries with the same count, in either order, and for an entry and itself. So it is
  not a consistent comparison function for any array that has an entry.
\<close>

lemma by_count_answers:
  "by_count a b < 0 \<longleftrightarrow> snd b \<le> snd a"
  "by_count a b > 0 \<longleftrightarrow> snd a < snd b"
  "by_count a b \<noteq> 0"
  by (simp_all add: by_count_def)


subsection \<open>The names after ``Featuring''\<close>





subsection \<open>When the array is ordered by count\<close>

text \<open>
  If the sort leaves the array ordered by non-increasing count, which is the order the
  comparator asks for, then the names listed are in the order of non-increasing number of
  occurrences, and no non-empty name that is left out occurs more often than a name that
  is listed. Whether the sort does so is the engine's matter.
\<close>

lemma ordered_top_artists:
  assumes "reordered (collect_artists tracks) arr"
    and "sorted_wrt (\<lambda>a b. snd b \<le> snd a) arr"
  shows "sorted_wrt
      (\<lambda>a b. count_list (artist_names tracks) b \<le> count_list (artist_names tracks) a)
      (topArtists arr)"
    and "\<forall>n\<in>set (topArtists arr).
          \<forall>m\<in>set (artist_names tracks) - {[]} - set (topArtists arr).
            count_list (artist_names tracks) m \<le> count_list (artist_names tracks) n"
proof -
  define acc where "acc = collect_artists tracks"
  define seen where "seen = artist_names tracks"
  define top where "top = topArtists arr"
  have top: "top = map fst (take 5 arr)"
    by (simp add: top_def topArtists_def)
  have c: "counted acc seen"
    unfolding acc_def seen_def by (rule counted_collect)
  from assms(1) have set_arr: "set arr = set acc"
    by (simp add: reordered_def acc_def)
  have entries: "n \<in> set seen \<and> n \<noteq> [] \<and> k = count_list seen n" if "(n, k) \<in> set arr" for n k
    using counted_entries [OF c] that set_arr by simp
  have "sorted_wrt (\<lambda>a b. count_list seen (fst b) \<le> count_list seen (fst a)) arr"
  proof (rule sorted_wrt_mono_rel [OF _ assms(2)])
    fix a b assume "a \<in> set arr" "b \<in> set arr" "snd b \<le> snd a"
    moreover from this have "snd a = count_list seen (fst a)" "snd b = count_list seen (fst b)"
      using entries [of "fst a" "snd a"] entries [of "fst b" "snd b"] by simp_all
    ultimately show "count_list seen (fst b) \<le> count_list seen (fst a)" by simp
  qed
  then have "sorted_wrt (\<lambda>a b. count_list seen (fst b) \<le> count_list seen (fst a)) (take 5 arr)"
    by (rule sorted_wrt_take)
  then have "sorted_wrt (\<lambda>a b. count_list seen b \<le> count_list seen a) top"
    by (simp add: top sorted_wrt_map)
  then show "sorted_wrt
      (\<lambda>a b. count_list (artist_names tracks) b \<le> count_list (artist_names tracks) a)
      (topArtists arr)"
    by (simp add: top_def seen_def)
  have "count_list seen m \<le> count_list seen n"
    if n: "n \<in> set top" and m: "m \<in> set seen - {[]} - set top" for n m
  proof -
    from n obtain k where nk: "(n, k) \<in> set (take 5 arr)" by (auto simp add: top)
    then have "(n, k) \<in> set arr" by (rule in_set_takeD)
    with entries have k: "k = count_list seen n" by simp
    from m have "(m, count_list seen m) \<in> set arr"
      using counted_complete [OF c] set_arr by simp
    then have "(m, count_list seen m) \<in> set (take 5 arr) \<union> set (drop 5 arr)"
      by (simp add: set_append [symmetric] del: set_append)
    moreover from m have "(m, count_list seen m) \<notin> set (take 5 arr)"
      by (force simp add: top)
    ultimately have md: "(m, count_list seen m) \<in> set (drop 5 arr)" by simp
    have "sorted_wrt (\<lambda>a b. snd b \<le> snd a) (take 5 arr @ drop 5 arr)"
      using assms(2) by simp
    then have "\<forall>x\<in>set (take 5 arr). \<forall>y\<in>set (drop 5 arr). snd y \<le> snd x"
      unfolding sorted_wrt_append by blast
    with nk md have "snd (m, count_list seen m) \<le> snd (n, k)" by blast
    with k show ?thesis by simp
  qed
  then show "\<forall>n\<in>set (topArtists arr).
          \<forall>m\<in>set (artist_names tracks) - {[]} - set (topArtists arr).
            count_list (artist_names tracks) m \<le> count_list (artist_names tracks) n"
    by (simp add: top_def seen_def)
qed

section \<open>The steps of the volume ramp\<close>

lemma lt20_cases:
  "(k::nat) < 20 \<Longrightarrow>
   k = 0 \<or> k = Suc 0 \<or> k = 2 \<or> k = 3 \<or> k = 4 \<or> k = 5 \<or> k = 6 \<or> k = 7 \<or> k = 8 \<or> k = 9 \<or>
   k = 10 \<or> k = 11 \<or> k = 12 \<or> k = 13 \<or> k = 14 \<or> k = 15 \<or> k = 16 \<or> k = 17 \<or> k = 18 \<or> k = 19"
  by arith

lemma vol_values:
  "vol 0 = 0" "vol (Suc 0) = 3602879701896397 / 72057594037927936"
  "vol 2 = 3602879701896397 / 36028797018963968"
  "vol 3 = 5404319552844595 / 36028797018963968"
  "vol 4 = 3602879701896397 / 18014398509481984" "vol 5 = 1 / 4"
  "vol 6 = 5404319552844595 / 18014398509481984" "vol 7 = 3152519739159347 / 9007199254740992"
  "vol 8 = 3602879701896397 / 9007199254740992" "vol 9 = 8106479329266893 / 18014398509481984"
  "vol 10 = 1 / 2" "vol 11 = 2476979795053773 / 4503599627370496"
  "vol 12 = 5404319552844595 / 9007199254740992" "vol 13 = 5854679515581645 / 9007199254740992"
  "vol 14 = 3152519739159347 / 4503599627370496" "vol 15 = 3 / 4"
  "vol 16 = 3602879701896397 / 4503599627370496" "vol 17 = 7656119366529843 / 9007199254740992"
  "vol 18 = 8106479329266893 / 9007199254740992" "vol 19 = 4278419646001971 / 4503599627370496"
  "vol 20 = 1"
  by (simp_all add: vol_def fl_eval)

lemma next_up_values:
  "next_up (vol 0) = vol (Suc 0)" "next_up (vol (Suc 0)) = vol 2" "next_up (vol 2) = vol 3"
  "next_up (vol 3) = vol 4" "next_up (vol 4) = vol 5" "next_up (vol 5) = vol 6"
  "next_up (vol 6) = vol 7" "next_up (vol 7) = vol 8" "next_up (vol 8) = vol 9"
  "next_up (vol 9) = vol 10" "next_up (vol 10) = vol 11" "next_up (vol 11) = vol 12"
  "next_up (vol 12) = vol 13" "next_up (vol 13) = vol 14" "next_up (vol 14) = vol 15"
  "next_up (vol 15) = vol 16" "next_up (vol 16) = vol 17" "next_up (vol 17) = vol 18"
  "next_up (vol 18) = vol 19" "next_up (vol 19) = vol 20"
  by (simp_all add: next_up_def vol_values fl_eval str_eval)

lemma next_down_values:
  "next_down (vol (Suc 0)) = vol 0" "next_down (vol 2) = vol (Suc 0)" "next_down (vol 3) = vol 2"
  "next_down (vol 4) = vol 3" "next_down (vol 5) = vol 4" "next_down (vol 6) = vol 5"
  "next_down (vol 7) = vol 6" "next_down (vol 8) = vol 7" "next_down (vol 9) = vol 8"
  "next_down (vol 10) = vol 9" "next_down (vol 11) = vol 10" "next_down (vol 12) = vol 11"
  "next_down (vol 13) = vol 12" "next_down (vol 14) = vol 13" "next_down (vol 15) = vol 14"
  "next_down (vol 16) = vol 15" "next_down (vol 17) = vol 16" "next_down (vol 18) = vol 17"
  "next_down (vol 19) = vol 18" "next_down (vol 20) = vol 19"
  by (simp_all add: next_down_def vol_values fl_eval str_eval)

lemma next_up_vol: "k < 20 \<Longrightarrow> next_up (vol k) = vol (Suc k)"
  by (drule lt20_cases) (elim disjE; simp add: next_up_values numeral_2_eq_2 [symmetric])

lemma next_down_vol: "k < 20 \<Longrightarrow> next_down (vol (Suc k)) = vol k"
  by (drule lt20_cases) (elim disjE; simp add: next_down_values numeral_2_eq_2 [symmetric])

lemma vol_increasing: "k < 20 \<Longrightarrow> vol k < vol (Suc k)"
  by (drule lt20_cases) (elim disjE; simp add: vol_values numeral_2_eq_2 [symmetric])

lemma vol_0: "vol 0 = 0" and vol_20: "vol 20 = 1"
  by (simp_all add: vol_values)

lemma vol_mono: "j \<le> k \<Longrightarrow> k \<le> 20 \<Longrightarrow> vol j \<le> vol k"
proof (induction k)
  case 0
  then show ?case by simp
next
  case (Suc k)
  show ?case
  proof (cases "j = Suc k")
    case True
    then show ?thesis by simp
  next
    case False
    with Suc have "vol j \<le> vol k" by simp
    moreover from Suc.prems have "vol k < vol (Suc k)" by (simp add: vol_increasing)
    ultimately show ?thesis by simp
  qed
qed

lemma vol_range: "k \<le> 20 \<Longrightarrow> 0 \<le> vol k \<and> vol k \<le> 1"
  using vol_mono [of 0 k] vol_mono [of k 20] by (simp add: vol_0 vol_20)

lemma vol_below_1: "k < 20 \<Longrightarrow> vol k < 1"
  using vol_increasing [of k] vol_range [of "Suc k"] by simp

lemma vol_above_0: "k < 20 \<Longrightarrow> 0 < vol (Suc k)"
  using vol_increasing [of k] vol_range [of k] by simp

lemma ramp_up_vol: "ramp_up (vol k) = vol (min (Suc k) 20)" if "k \<le> 20"
proof (cases "k < 20")
  case True
  then show ?thesis
    using vol_range [of "Suc k"] by (simp add: ramp_up_def next_up_vol vol_below_1)
next
  case False
  with that have "k = 20" by simp
  then show ?thesis by (simp add: ramp_up_def vol_20)
qed

lemma ramp_up_iter: "(ramp_up ^^ k) (vol 0) = vol (min k 20)"
proof (induction k)
  case 0
  show ?case by simp
next
  case (Suc k)
  have "min (Suc (min k 20)) 20 = min (Suc k) 20" by simp
  with Suc ramp_up_vol [of "min k 20"] show ?case by simp
qed

lemma ramp_down_vol: "ramp_down (vol k) = vol (k - 1)" if "k \<le> 20"
proof (cases k)
  case 0
  then show ?thesis by (simp add: ramp_down_def vol_0)
next
  case (Suc j)
  with that have j: "j < 20" by simp
  with Suc show ?thesis
    using vol_range [of j] by (simp add: ramp_down_def next_down_vol vol_above_0)
qed

lemma ramp_down_iter: "k \<le> 20 \<Longrightarrow> (ramp_down ^^ j) (vol k) = vol (k - j)"
proof (induction j)
  case 0
  show ?case by simp
next
  case (Suc j)
  then show ?case using ramp_down_vol [of "k - j"] by simp
qed

lemma pause_delay_values:
  "pause_delay (vol 0) = 0" "pause_delay (vol (Suc 0)) = 100" "pause_delay (vol 2) = 200"
  "pause_delay (vol 3) = 5277655813324799 / 17592186044416" "pause_delay (vol 4) = 400"
  "pause_delay (vol 5) = 500" "pause_delay (vol 6) = 5277655813324799 / 8796093022208"
  "pause_delay (vol 7) = 6157265115545599 / 8796093022208" "pause_delay (vol 8) = 800"
  "pause_delay (vol 9) = 900" "pause_delay (vol 10) = 1000" "pause_delay (vol 11) = 1100"
  "pause_delay (vol 12) = 5277655813324799 / 4398046511104" "pause_delay (vol 13) = 1300"
  "pause_delay (vol 14) = 6157265115545599 / 4398046511104" "pause_delay (vol 15) = 1500"
  "pause_delay (vol 16) = 1600" "pause_delay (vol 17) = 1700" "pause_delay (vol 18) = 1800"
  "pause_delay (vol 19) = 4178144185548799 / 2199023255552" "pause_delay (vol 20) = 2000"
  by (simp_all add: pause_delay_def vol_values fl_eval)

lemma le20_cases:
  "(k::nat) \<le> 20 \<Longrightarrow>
   k = 0 \<or> k = Suc 0 \<or> k = 2 \<or> k = 3 \<or> k = 4 \<or> k = 5 \<or> k = 6 \<or> k = 7 \<or> k = 8 \<or> k = 9 \<or>
   k = 10 \<or> k = 11 \<or> k = 12 \<or> k = 13 \<or> k = 14 \<or> k = 15 \<or> k = 16 \<or> k = 17 \<or> k = 18 \<or> k = 19 \<or>
   k = 20"
  by arith

text \<open>To two decimals, \<open>vol k\<close> is \<open>5 k\<close> hundredths: the decimal \<open>k \<times> 0.05\<close>.\<close>

lemma toFixed_vol_values:
  "toFixed_n 2 (vol 0) = 0" "toFixed_n 2 (vol (Suc 0)) = 5" "toFixed_n 2 (vol 2) = 10"
  "toFixed_n 2 (vol 3) = 15" "toFixed_n 2 (vol 4) = 20" "toFixed_n 2 (vol 5) = 25"
  "toFixed_n 2 (vol 6) = 30" "toFixed_n 2 (vol 7) = 35" "toFixed_n 2 (vol 8) = 40"
  "toFixed_n 2 (vol 9) = 45" "toFixed_n 2 (vol 10) = 50" "toFixed_n 2 (vol 11) = 55"
  "toFixed_n 2 (vol 12) = 60" "toFixed_n 2 (vol 13) = 65" "toFixed_n 2 (vol 14) = 70"
  "toFixed_n 2 (vol 15) = 75" "toFixed_n 2 (vol 16) = 80" "toFixed_n 2 (vol 17) = 85"
  "toFixed_n 2 (vol 18) = 90" "toFixed_n 2 (vol 19) = 95" "toFixed_n 2 (vol 20) = 100"
  by (simp_all add: toFixed_n_def vol_values)

lemma toFixed_vol: "k \<le> 20 \<Longrightarrow> toFixed_n 2 (vol k) = 5 * k"
  by (drule le20_cases) (elim disjE; simp add: toFixed_vol_values)

lemma pause_delay_exact:
  "k \<le> 20 \<Longrightarrow> (pause_delay (vol k) = 100 * of_nat k) = (k \<notin> {3, 6, 7, 12, 14, 19})"
  by (drule le20_cases) (elim disjE; simp add: pause_delay_values)

lemma pause_delay_short:
  "k \<in> {3, 6, 7, 12, 14, 19} \<Longrightarrow>
   pause_delay (vol k) < 100 * of_nat k \<and> \<lfloor>pause_delay (vol k)\<rfloor> = 100 * int k - 1"
  by (auto simp add: pause_delay_values)


section \<open>Well-formed pages\<close>

lemma refs_ok_grow:
  "refs_ok s c \<Longrightarrow> length (elems s) \<le> length (elems s') \<Longrightarrow>
   length (timers s) \<le> length (timers s') \<Longrightarrow> refs_ok s' c"
  by (auto simp add: refs_ok_def split: option.splits)

lemma wf_page_update:
  assumes "wf_page s" and "length (elems s) \<le> length (elems s')"
    and "length (timers s) \<le> length (timers s')"
    and "comps s' = (comps s)[i := c]" and "refs_ok s' c"
  shows "wf_page s'"
  unfolding wf_page_def list_all_length
proof (intro allI impI)
  fix j assume j: "j < length (comps s')"
  show "refs_ok s' (comps s' ! j)"
  proof (cases "j = i")
    case True
    with j assms(4,5) show ?thesis by simp
  next
    case False
    from j assms(4) have "j < length (comps s)" by simp
    with assms(1) have "refs_ok s (comps s ! j)" by (simp add: wf_page_def list_all_length)
    then have "refs_ok s' (comps s ! j)" using assms(2,3) by (rule refs_ok_grow)
    with False assms(4) show ?thesis by simp
  qed
qed

lemma wf_page_same:
  assumes "wf_page s" and "length (elems s') = length (elems s)"
    and "length (timers s') = length (timers s)" and "comps s' = comps s"
  shows "wf_page s'"
  unfolding wf_page_def list_all_length
proof (intro allI impI)
  fix j assume "j < length (comps s')"
  with assms(1,4) have "refs_ok s (comps s ! j)" by (simp add: wf_page_def list_all_length)
  then have "refs_ok s' (comps s ! j)" by (rule refs_ok_grow) (simp_all add: assms(2,3))
  with assms(4) show "refs_ok s' (comps s' ! j)" by simp
qed

lemma wf_play: "wf_page s \<Longrightarrow> wf_page (play t allowed i s)"
proof -
  assume wf: "wf_page s"
  show ?thesis
  proof (cases "i < length (comps s) \<and> audio (comps s ! i) = None \<and> truthy (preview_url t)")
    case False
    then have "play t allowed i s = s" by (auto simp add: play_def)
    with wf show ?thesis by simp
  next
    case True
    then have i: "i < length (comps s)" by simp
    from wf i have ok: "refs_ok s (comps s ! i)" by (simp add: wf_page_def list_all_length)
    let ?c = "(comps s ! i)\<lparr>fadeIn := Some (length (timers s)), audio := Some (length (elems s))\<rparr>"
    from True have eff: "comps (play t allowed i s) = (comps s)[i := ?c]"
      "length (elems (play t allowed i s)) = Suc (length (elems s))"
      "length (timers (play t allowed i s)) = Suc (length (timers s))"
      by (simp_all add: play_def Let_def set_comp_def setInterval_def)
    from ok have okc: "refs_ok (play t allowed i s) ?c"
      by (auto simp add: refs_ok_def eff split: option.splits)
    show ?thesis
      by (rule wf_page_update [OF wf _ _ eff(1) okc]) (simp_all add: eff)
  qed
qed

lemma wf_stop: "wf_page s \<Longrightarrow> wf_page (stop i s)"
proof -
  assume wf: "wf_page s"
  show ?thesis
  proof (cases "i < length (comps s) \<and> audio (comps s ! i) \<noteq> None")
    case False
    then have "stop i s = s" by (auto simp add: stop_def split: option.splits)
    with wf show ?thesis by simp
  next
    case True
    then obtain a where i: "i < length (comps s)" and a: "audio (comps s ! i) = Some a" by auto
    from wf i have ok: "refs_ok s (comps s ! i)" by (simp add: wf_page_def list_all_length)
    let ?c = "(comps s ! i)\<lparr>audio := None, fadeOut := Some (length (timers s))\<rparr>"
    from i a have eff: "comps (stop i s) = (comps s)[i := ?c]"
      "length (elems (stop i s)) = length (elems s)"
      "length (timers (stop i s)) = length (timers s) + 2"
      by (simp_all add: stop_def Let_def set_comp_def setInterval_def setTimeout_def
          clearInterval_def split: option.splits)
    from ok have okc: "refs_ok (stop i s) ?c"
      by (auto simp add: refs_ok_def eff split: option.splits)
    show ?thesis
      by (rule wf_page_update [OF wf _ _ eff(1) okc]) (simp_all add: eff)
  qed
qed

lemma fire_frame:
  "length (elems (fire h s)) = length (elems s)"
  "length (timers (fire h s)) = length (timers s)"
  "comps (fire h s) = comps s"
  by (simp_all add: fire_def Let_def fade_in_tick_def fade_out_tick_def set_volume_def
      clearInterval_def pause_def split: callback.splits option.splits)

lemma wf_fire: "wf_page s \<Longrightarrow> wf_page (fire h s)"
  by (erule wf_page_same) (simp_all add: fire_frame)

lemma settle_frame:
  "length (elems (settle p result s)) = length (elems s)"
  "length (timers (settle p result s)) = length (timers s)"
  "comps (settle p result s) = comps s \<or>
   comps (settle p result s) =
     (comps s)[owner (promises s ! p) := (comps s ! owner (promises s ! p))\<lparr>interactable := True\<rparr>]"
  by (simp_all add: settle_def Let_def set_comp_def split: outcome.splits)

lemma wf_settle: "wf_page s \<Longrightarrow> wf_page (settle p result s)"
proof -
  assume wf: "wf_page s"
  let ?o = "owner (promises s ! p)"
  let ?c = "(comps s ! ?o)\<lparr>interactable := True\<rparr>"
  from settle_frame(3) [of p result s] show ?thesis
  proof
    assume "comps (settle p result s) = comps s"
    then show ?thesis by (rule wf_page_same [OF wf settle_frame(1,2)])
  next
    assume c: "comps (settle p result s) = (comps s)[?o := ?c]"
    show ?thesis
    proof (cases "?o < length (comps s)")
      case True
      with wf have "refs_ok s (comps s ! ?o)" by (simp add: wf_page_def list_all_length)
      then have okc: "refs_ok (settle p result s) ?c"
        by (auto simp add: refs_ok_def settle_frame split: option.splits)
      show ?thesis
        by (rule wf_page_update [OF wf _ _ c okc]) (simp_all add: settle_frame)
    next
      case False
      with c have "comps (settle p result s) = comps s" by (simp add: list_update_beyond)
      then show ?thesis by (rule wf_page_same [OF wf settle_frame(1,2)])
    qed
  qed
qed

lemma wf_step: "wf_page s \<Longrightarrow> wf_page (step tracks s e)"
  by (cases e) (auto intro: wf_play wf_stop wf_fire wf_settle)

lemma wf_init: "wf_page (init n)"
  by (simp add: wf_page_def init_def refs_ok_def list_all_length)

text \<open>Every page reached from the initial page is well formed.\<close>

lemma wf_run: "wf_page (run tracks evs (init n))"
proof -
  have all: "wf_page s \<Longrightarrow> wf_page (foldl (step tracks) s evs)" for s
    by (induction evs arbitrary: s) (auto intro: wf_step)
  show ?thesis unfolding run_def by (rule all [OF wf_init])
qed

section \<open>Hovering and leaving\<close>

lemma play_effect:
  assumes "i < length (comps s)" "audio (comps s ! i) = None" "truthy (preview_url t)"
  shows "comps (play t allowed i s) =
           (comps s)[i := (comps s ! i)\<lparr>fadeIn := Some (length (timers s)),
                                          audio := Some (length (elems s))\<rparr>]"
    and "elems (play t allowed i s) =
           elems s @ [\<lparr>src = the (preview_url t), volume = 0, paused = \<not> allowed\<rparr>]"
    and "timers (play t allowed i s) =
           timers s @ [\<lparr>callback = FadeInTick (length (elems s)) (fadeIn (comps s ! i)),
                         delay = 100, repeating = True, active = True\<rparr>]"
    and "promises (play t allowed i s) =
           promises s @ [\<lparr>owner = i, notified = interactableNotified s, settled = False\<rparr>]"
    and "toasts (play t allowed i s) = toasts s"
    and "interactableNotified (play t allowed i s) = interactableNotified s"
  using assms by (simp_all add: play_def Let_def set_comp_def setInterval_def)

lemma stop_effect:
  assumes "i < length (comps s)" "audio (comps s ! i) = Some a"
  shows "comps (stop i s) =
           (comps s)[i := (comps s ! i)\<lparr>audio := None, fadeOut := Some (length (timers s))\<rparr>]"
    and "elems (stop i s) = elems s"
    and "timers (stop i s) =
         (case fadeIn (comps s ! i) of
            None \<Rightarrow> timers s
          | Some h \<Rightarrow> if h < length (timers s)
                      then (timers s)[h := (timers s ! h)\<lparr>active := False\<rparr>] else timers s) @
         [\<lparr>callback = FadeOutTick a (fadeOut (comps s ! i)), delay = 100,
           repeating = True, active = True\<rparr>,
          \<lparr>callback = PauseTimeout a,
           delay = fmul (fdiv (volume (elems s ! a)) lit_0_05) 100,
           repeating = False, active = True\<rparr>]"
    and "promises (stop i s) = promises s"
    and "toasts (stop i s) = toasts s"
    and "interactableNotified (stop i s) = interactableNotified s"
  using assms
  by (simp_all add: stop_def Let_def set_comp_def setInterval_def setTimeout_def
      clearInterval_def split: option.splits)

text \<open>One tick of a fade-in timer whose callback does not hold the timer's own handle.\<close>

lemma fire_fade_in:
  assumes "h < length (timers s)"
    and "callback (timers s ! h) = FadeInTick a cap" and "repeating (timers s ! h)"
    and "active (timers s ! h)" and "a < length (elems s)" and "cap \<noteq> Some h"
  shows "cap \<noteq> Some g \<Longrightarrow> timers (fire h s) ! g = timers s ! g"
    and "length (timers (fire h s)) = length (timers s)"
    and "length (elems (fire h s)) = length (elems s)"
    and "volume (elems (fire h s) ! a) = ramp_up (volume (elems s ! a))"
    and "paused (elems (fire h s) ! b) = paused (elems s ! b)"
    and "b \<noteq> a \<Longrightarrow> elems (fire h s) ! b = elems s ! b"
    and "comps (fire h s) = comps s"
  using assms
  by (auto simp add: fire_def fade_in_tick_def set_volume_def clearInterval_def ramp_up_def
      next_up_def Let_def nth_list_update split: option.splits)

lemma fire_fade_out:
  assumes "h < length (timers s)"
    and "callback (timers s ! h) = FadeOutTick a cap" and "repeating (timers s ! h)"
    and "active (timers s ! h)" and "a < length (elems s)" and "cap \<noteq> Some h"
  shows "cap \<noteq> Some g \<Longrightarrow> timers (fire h s) ! g = timers s ! g"
    and "length (timers (fire h s)) = length (timers s)"
    and "length (elems (fire h s)) = length (elems s)"
    and "volume (elems (fire h s) ! a) = ramp_down (volume (elems s ! a))"
    and "paused (elems (fire h s) ! b) = paused (elems s ! b)"
    and "b \<noteq> a \<Longrightarrow> elems (fire h s) ! b = elems s ! b"
    and "comps (fire h s) = comps s"
  using assms
  by (auto simp add: fire_def fade_out_tick_def set_volume_def clearInterval_def ramp_down_def
      next_down_def Let_def nth_list_update split: option.splits)

lemma fade_in_same_timer:
  assumes "h < length (timers s)"
    and "callback (timers s ! h) = FadeInTick a cap" and "repeating (timers s ! h)"
    and "active (timers s ! h)" and "a < length (elems s)" and "cap \<noteq> Some h"
  shows "timers ((fire h ^^ k) s) ! h = timers s ! h
    \<and> length (timers ((fire h ^^ k) s)) = length (timers s)
    \<and> length (elems ((fire h ^^ k) s)) = length (elems s)"
proof (induction k)
  case 0
  show ?case by simp
next
  case (Suc k)
  let ?s = "(fire h ^^ k) s"
  from Suc assms have pre: "h < length (timers ?s)" "callback (timers ?s ! h) = FadeInTick a cap"
    "repeating (timers ?s ! h)" "active (timers ?s ! h)" "a < length (elems ?s)"
    by simp_all
  from fire_fade_in(1) [OF pre assms(6), where g = h] fire_fade_in(2,3) [OF pre assms(6)]
    assms(6) Suc show ?case by simp
qed

lemma fade_out_same_timer:
  assumes "h < length (timers s)"
    and "callback (timers s ! h) = FadeOutTick a cap" and "repeating (timers s ! h)"
    and "active (timers s ! h)" and "a < length (elems s)" and "cap \<noteq> Some h"
  shows "timers ((fire h ^^ k) s) ! h = timers s ! h
    \<and> length (timers ((fire h ^^ k) s)) = length (timers s)
    \<and> length (elems ((fire h ^^ k) s)) = length (elems s)"
proof (induction k)
  case 0
  show ?case by simp
next
  case (Suc k)
  let ?s = "(fire h ^^ k) s"
  from Suc assms have pre: "h < length (timers ?s)" "callback (timers ?s ! h) = FadeOutTick a cap"
    "repeating (timers ?s ! h)" "active (timers ?s ! h)" "a < length (elems ?s)"
    by simp_all
  from fire_fade_out(1) [OF pre assms(6), where g = h] fire_fade_out(2,3) [OF pre assms(6)]
    assms(6) Suc show ?case by simp
qed

lemma fade_in_ticks:
  assumes "h < length (timers s)"
    and "callback (timers s ! h) = FadeInTick a cap" and "repeating (timers s ! h)"
    and "active (timers s ! h)" and "a < length (elems s)" and "cap \<noteq> Some h"
  shows "(cap \<noteq> Some g \<longrightarrow> timers ((fire h ^^ k) s) ! g = timers s ! g)
    \<and> length (timers ((fire h ^^ k) s)) = length (timers s)
    \<and> length (elems ((fire h ^^ k) s)) = length (elems s)
    \<and> volume (elems ((fire h ^^ k) s) ! a) = (ramp_up ^^ k) (volume (elems s ! a))
    \<and> paused (elems ((fire h ^^ k) s) ! b) = paused (elems s ! b)
    \<and> comps ((fire h ^^ k) s) = comps s"
proof (induction k)
  case 0
  show ?case by simp
next
  case (Suc k)
  let ?s = "(fire h ^^ k) s"
  from assms(6) have same: "timers ?s ! h = timers s ! h"
    using fade_in_same_timer [OF assms, of k] by simp
  from Suc assms same have pre: "h < length (timers ?s)"
    "callback (timers ?s ! h) = FadeInTick a cap"
    "repeating (timers ?s ! h)" "active (timers ?s ! h)" "a < length (elems ?s)"
    by simp_all
  from fire_fade_in [OF pre assms(6)] Suc show ?case by simp
qed

lemma fade_out_ticks:
  assumes "h < length (timers s)"
    and "callback (timers s ! h) = FadeOutTick a cap" and "repeating (timers s ! h)"
    and "active (timers s ! h)" and "a < length (elems s)" and "cap \<noteq> Some h"
  shows "(cap \<noteq> Some g \<longrightarrow> timers ((fire h ^^ k) s) ! g = timers s ! g)
    \<and> length (timers ((fire h ^^ k) s)) = length (timers s)
    \<and> length (elems ((fire h ^^ k) s)) = length (elems s)
    \<and> volume (elems ((fire h ^^ k) s) ! a) = (ramp_down ^^ k) (volume (elems s ! a))
    \<and> paused (elems ((fire h ^^ k) s) ! b) = paused (elems s ! b)
    \<and> (b \<noteq> a \<longrightarrow> elems ((fire h ^^ k) s) ! b = elems s ! b)
    \<and> comps ((fire h ^^ k) s) = comps s"
proof (induction k)
  case 0
  show ?case by simp
next
  case (Suc k)
  let ?s = "(fire h ^^ k) s"
  from assms(6) have same: "timers ?s ! h = timers s ! h"
    using fade_out_same_timer [OF assms, of k] by simp
  from Suc assms same have pre: "h < length (timers ?s)"
    "callback (timers ?s ! h) = FadeOutTick a cap"
    "repeating (timers ?s ! h)" "active (timers ?s ! h)" "a < length (elems ?s)"
    by simp_all
  from fire_fade_out [OF pre assms(6)] Suc show ?case by simp
qed

lemma wf_page_nth: "wf_page s \<Longrightarrow> i < length (comps s) \<Longrightarrow> refs_ok s (comps s ! i)"
  by (simp add: wf_page_def list_all_length)

lemma fadeIn_not_fresh:
  "wf_page s \<Longrightarrow> i < length (comps s) \<Longrightarrow> fadeIn (comps s ! i) \<noteq> Some (length (timers s))"
  by (drule (1) wf_page_nth) (auto simp add: refs_ok_def split: option.splits)

lemma fadeOut_not_fresh:
  "wf_page s \<Longrightarrow> i < length (comps s) \<Longrightarrow> fadeOut (comps s ! i) \<noteq> Some (length (timers s))"
  by (drule (1) wf_page_nth) (auto simp add: refs_ok_def split: option.splits)

lemma audio_in_range:
  "wf_page s \<Longrightarrow> i < length (comps s) \<Longrightarrow> audio (comps s ! i) = Some a \<Longrightarrow> a < length (elems s)"
  by (drule (1) wf_page_nth) (auto simp add: refs_ok_def split: option.splits)

lemma stop_timers:
  assumes "i < length (comps s)" and "audio (comps s ! i) = Some a"
  shows "length (timers (stop i s)) = length (timers s) + 2"
    and "timers (stop i s) ! length (timers s) =
           \<lparr>callback = FadeOutTick a (fadeOut (comps s ! i)), delay = 100,
            repeating = True, active = True\<rparr>"
    and "timers (stop i s) ! Suc (length (timers s)) =
           \<lparr>callback = PauseTimeout a, delay = pause_delay (volume (elems s ! a)),
            repeating = False, active = True\<rparr>"
proof -
  define ts where "ts = (case fadeIn (comps s ! i) of None \<Rightarrow> timers s
      | Some h \<Rightarrow> if h < length (timers s)
                  then (timers s)[h := (timers s ! h)\<lparr>active := False\<rparr>] else timers s)"
  have len: "length ts = length (timers s)"
    by (simp add: ts_def split: option.splits)
  have eq: "timers (stop i s) =
      ts @ [\<lparr>callback = FadeOutTick a (fadeOut (comps s ! i)), delay = 100,
             repeating = True, active = True\<rparr>,
            \<lparr>callback = PauseTimeout a, delay = pause_delay (volume (elems s ! a)),
             repeating = False, active = True\<rparr>]"
    unfolding ts_def pause_delay_def by (rule stop_effect(3) [OF assms])
  show "length (timers (stop i s)) = length (timers s) + 2"
    by (simp add: eq len)
  show "timers (stop i s) ! length (timers s) =
           \<lparr>callback = FadeOutTick a (fadeOut (comps s ! i)), delay = 100,
            repeating = True, active = True\<rparr>"
    unfolding eq len [symmetric] by simp
  have "(ts @ [\<lparr>callback = FadeOutTick a (fadeOut (comps s ! i)), delay = 100,
             repeating = True, active = True\<rparr>,
            \<lparr>callback = PauseTimeout a, delay = pause_delay (volume (elems s ! a)),
             repeating = False, active = True\<rparr>]) ! (length ts + 1) =
           \<lparr>callback = PauseTimeout a, delay = pause_delay (volume (elems s ! a)),
            repeating = False, active = True\<rparr>"
    by (simp only: nth_append_length_plus) simp
  then show "timers (stop i s) ! Suc (length (timers s)) =
           \<lparr>callback = PauseTimeout a, delay = pause_delay (volume (elems s ! a)),
            repeating = False, active = True\<rparr>"
    by (simp add: eq len)
qed

lemma stop_fade_out:
  assumes "wf_page s" and "i < length (comps s)" and "audio (comps s ! i) = Some a"
  shows "timers ((fire (length (timers s)) ^^ j) (stop i s)) ! Suc (length (timers s)) =
           \<lparr>callback = PauseTimeout a, delay = pause_delay (volume (elems s ! a)),
            repeating = False, active = True\<rparr>"
    and "length (elems ((fire (length (timers s)) ^^ j) (stop i s))) = length (elems s)"
    and "length (timers ((fire (length (timers s)) ^^ j) (stop i s))) = length (timers s) + 2"
    and "volume (elems ((fire (length (timers s)) ^^ j) (stop i s)) ! a) =
           (ramp_down ^^ j) (volume (elems s ! a))"
    and "paused (elems ((fire (length (timers s)) ^^ j) (stop i s)) ! b) = paused (elems s ! b)"
    and "comps ((fire (length (timers s)) ^^ j) (stop i s)) = comps (stop i s)"
proof -
  let ?h = "length (timers s)"
  let ?s = "stop i s"
  note tm = stop_timers [OF assms(2,3)]
  have el: "elems ?s = elems s"
    by (rule stop_effect(2) [OF assms(2,3)])
  have a: "a < length (elems ?s)"
    using audio_in_range [OF assms] by (simp add: el)
  have fresh: "fadeOut (comps s ! i) \<noteq> Some ?h"
    using assms(1,2) by (rule fadeOut_not_fresh)
  have "refs_ok s (comps s ! i)"
    using assms(1,2) by (rule wf_page_nth)
  then have other: "fadeOut (comps s ! i) \<noteq> Some (Suc ?h)"
    by (auto simp add: refs_ok_def split: option.splits)
  have pre: "?h < length (timers ?s)"
    "callback (timers ?s ! ?h) = FadeOutTick a (fadeOut (comps s ! i))"
    "repeating (timers ?s ! ?h)" "active (timers ?s ! ?h)"
    by (simp_all add: tm)
  note ticks = fade_out_ticks [OF pre a fresh]
  show "timers ((fire ?h ^^ j) ?s) ! Suc ?h = \<lparr>callback = PauseTimeout a,
            delay = pause_delay (volume (elems s ! a)), repeating = False, active = True\<rparr>"
    using ticks [of "Suc ?h" j] other by (simp add: tm)
  show "length (elems ((fire ?h ^^ j) ?s)) = length (elems s)"
    using ticks [of ?h j] by (simp add: el)
  show "length (timers ((fire ?h ^^ j) ?s)) = ?h + 2"
    using ticks [of ?h j] by (simp add: tm)
  show "volume (elems ((fire ?h ^^ j) ?s) ! a) = (ramp_down ^^ j) (volume (elems s ! a))"
    using ticks [of ?h j] by (simp add: el)
  show "paused (elems ((fire ?h ^^ j) ?s) ! b) = paused (elems s ! b)"
    using ticks [of ?h j b] by (simp add: el)
  show "comps ((fire ?h ^^ j) ?s) = comps ?s"
    using ticks [of ?h j] by simp
qed

lemmas page_eval = run_def init_def play_def stop_def fire_def fade_in_tick_def fade_out_tick_def
  set_volume_def set_comp_def setInterval_def setTimeout_def clearInterval_def pause_def
  truthy_def preview_track_def

lemma two_audible:
  "audible (run [preview_track]
      [MouseOver 0 True, Fire 0, Fire 0, Fire 0, MouseLeave 0, MouseOver 0 True, Fire 1, Fire 3]
      (init 1)) 0
   \<and> audible (run [preview_track]
      [MouseOver 0 True, Fire 0, Fire 0, Fire 0, MouseLeave 0, MouseOver 0 True, Fire 1, Fire 3]
      (init 1)) 1"
  by (simp add: audible_def page_eval fl_eval str_eval)


subsection \<open>Fading in\<close>

text \<open>
  Claim C1. In a well-formed page, for a track with a non-empty \<open>preview_url\<close> whose
  component holds no audio element, \<open>play\<close> creates an audio element with volume 0 and
  a 100 ms interval timer. After \<open>k\<close> ticks of that timer the volume is \<open>vol (min k 20)\<close>,
  the number that the decimal \<open>min k 20 \<times> 0.05\<close> denotes (to two decimals it is that
  multiple of 0.05): while the volume is below 1 a tick adds 0.05 and rounds to two
  decimals, which takes \<open>vol k\<close> to the strictly greater \<open>vol (k + 1)\<close>; the volume is
  exactly 1 after 20 ticks and never more than 1.
\<close>

theorem fade_in_ramp:
  assumes "wf_page s" and "i < length (comps s)" and "audio (comps s ! i) = None"
    and "truthy (preview_url t)"
  shows "elems (play t allowed i s) ! length (elems s) =
           \<lparr>src = the (preview_url t), volume = 0, paused = \<not> allowed\<rparr>
    \<and> timers (play t allowed i s) ! length (timers s) =
           \<lparr>callback = FadeInTick (length (elems s)) (fadeIn (comps s ! i)), delay = 100,
            repeating = True, active = True\<rparr>
    \<and> audio (comps (play t allowed i s) ! i) = Some (length (elems s))
    \<and> (\<forall>k. volume (elems ((fire (length (timers s)) ^^ k) (play t allowed i s)) ! length (elems s))
            = vol (min k 20))
    \<and> (\<forall>k<20. vol k < 1 \<and> vol (Suc k) = Number (toFixed 2 (fadd (vol k) lit_0_05))
              \<and> vol k < vol (Suc k))
    \<and> vol 0 = 0
    \<and> vol 20 = 1
    \<and> (\<forall>k. vol (min k 20) \<le> 1)
    \<and> (\<forall>k\<le>20. toFixed_n 2 (vol k) = 5 * k)"
proof -
  let ?p = "play t allowed i s"
  let ?h = "length (timers s)"
  let ?a = "length (elems s)"
  note eff = play_effect [OF assms(2,3,4), of allowed]
  have pre: "?h < length (timers ?p)"
    "callback (timers ?p ! ?h) = FadeInTick ?a (fadeIn (comps s ! i))"
    "repeating (timers ?p ! ?h)" "active (timers ?p ! ?h)" "?a < length (elems ?p)"
    by (simp_all add: eff)
  have fresh: "fadeIn (comps s ! i) \<noteq> Some ?h"
    using assms(1,2) by (rule fadeIn_not_fresh)
  have ticks: "volume (elems ((fire ?h ^^ k) ?p) ! ?a) = vol (min k 20)" for k
  proof -
    have "volume (elems ((fire ?h ^^ k) ?p) ! ?a) = (ramp_up ^^ k) (vol 0)"
      using fade_in_ticks [OF pre fresh, of ?h k] by (simp add: eff vol_0)
    then show ?thesis by (simp add: ramp_up_iter)
  qed
  have step: "vol k < 1 \<and> vol (Suc k) = Number (toFixed 2 (fadd (vol k) lit_0_05))
      \<and> vol k < vol (Suc k)" if "k < 20" for k
    using that next_up_vol [of k] by (simp add: vol_below_1 vol_increasing next_up_def)
  have top: "vol (min k 20) \<le> 1" for k
    using vol_range [of "min k 20"] by simp
  have first: "elems ?p ! ?a = \<lparr>src = the (preview_url t), volume = 0, paused = \<not> allowed\<rparr>"
    "timers ?p ! ?h = \<lparr>callback = FadeInTick ?a (fadeIn (comps s ! i)), delay = 100,
            repeating = True, active = True\<rparr>"
    "audio (comps ?p ! i) = Some ?a"
    using assms(2) by (simp_all add: eff)
  from first ticks step top vol_0 vol_20 toFixed_vol show ?thesis by blast
qed

theorem fade_in_ramp_witness:
  "volume (elems (play preview_track True 0 (init 1)) ! 0) = 0
   \<and> volume (elems ((fire 0 ^^ 7) (play preview_track True 0 (init 1))) ! 0) = vol 7
   \<and> vol 7 = 3152519739159347 / 9007199254740992
   \<and> toFixed 2 (vol 7) = ''0.35''
   \<and> volume (elems ((fire 0 ^^ 20) (play preview_track True 0 (init 1))) ! 0) = 1
   \<and> volume (elems ((fire 0 ^^ 33) (play preview_track True 0 (init 1))) ! 0) = 1"
proof -
  have pre: "wf_page (init 1)" "0 < length (comps (init 1))" "audio (comps (init 1) ! 0) = None"
    "truthy (preview_url preview_track)"
    by (simp_all add: wf_init) (simp_all add: init_def truthy_def preview_track_def)
  have len: "length (timers (init 1)) = 0" "length (elems (init 1)) = 0"
    by (simp_all add: init_def)
  note th = fade_in_ramp [OF pre, of True, unfolded len]
  from th have a: "elems (play preview_track True 0 (init 1)) ! 0 =
      \<lparr>src = the (preview_url preview_track), volume = 0, paused = \<not> True\<rparr>"
    by (elim conjE)
  from th have b: "\<forall>k. volume (elems ((fire 0 ^^ k) (play preview_track True 0 (init 1))) ! 0)
      = vol (min k 20)"
    by (elim conjE)
  have c: "toFixed 2 (vol 7) = ''0.35''"
    by (simp add: vol_values str_eval)
  from a have v0: "volume (elems (play preview_track True 0 (init 1)) ! 0) = 0"
    by simp
  from spec [OF b, of 7]
  have v7: "volume (elems ((fire 0 ^^ 7) (play preview_track True 0 (init 1))) ! 0) = vol 7"
    by simp
  from spec [OF b, of 20]
  have v20: "volume (elems ((fire 0 ^^ 20) (play preview_track True 0 (init 1))) ! 0) = 1"
    by (simp add: vol_20)
  from spec [OF b, of 33]
  have v33: "volume (elems ((fire 0 ^^ 33) (play preview_track True 0 (init 1))) ! 0) = 1"
    by (simp add: vol_20)
  from v0 v7 vol_values(8) c v20 v33 show ?thesis by blast
qed

text \<open>
  Claim C2 says that the fade-in timer is cancelled once the volume has reached 1, the
  handle given to \<open>clearInterval\<close> in the callback being the timer's own. The code does
  otherwise: the callback holds the \<open>fadeIn\<close> value of the render that called \<open>play\<close>,
  which is never the handle of the timer that this \<open>play\<close> creates (that handle is stored
  by \<open>setFadeIn\<close> for the next render). So the timer stays armed however often it ticks,
  also after the volume has reached 1; only \<open>stop\<close> clears it.
\<close>

theorem fade_in_timer_never_cancelled:
  assumes "wf_page s" and "i < length (comps s)" and "audio (comps s ! i) = None"
    and "truthy (preview_url t)"
  shows "callback (timers (play t allowed i s) ! length (timers s)) =
           FadeInTick (length (elems s)) (fadeIn (comps s ! i))
    \<and> fadeIn (comps s ! i) \<noteq> Some (length (timers s))
    \<and> fadeIn (comps (play t allowed i s) ! i) = Some (length (timers s))
    \<and> (\<forall>k. active (timers ((fire (length (timers s)) ^^ k) (play t allowed i s))
                  ! length (timers s)))
    \<and> (\<forall>k\<ge>20. volume (elems ((fire (length (timers s)) ^^ k) (play t allowed i s))
                  ! length (elems s)) = 1)"
proof -
  let ?p = "play t allowed i s"
  let ?h = "length (timers s)"
  let ?a = "length (elems s)"
  note eff = play_effect [OF assms(2,3,4), of allowed]
  have pre: "?h < length (timers ?p)"
    "callback (timers ?p ! ?h) = FadeInTick ?a (fadeIn (comps s ! i))"
    "repeating (timers ?p ! ?h)" "active (timers ?p ! ?h)" "?a < length (elems ?p)"
    by (simp_all add: eff)
  have fresh: "fadeIn (comps s ! i) \<noteq> Some ?h"
    using assms(1,2) by (rule fadeIn_not_fresh)
  note ticks = fade_in_ticks [OF pre fresh]
  have "active (timers ((fire ?h ^^ k) ?p) ! ?h)" for k
    using ticks [of ?h k] fresh pre(4) by simp
  moreover have "volume (elems ((fire ?h ^^ k) ?p) ! ?a) = 1" if "20 \<le> k" for k
  proof -
    have "volume (elems ((fire ?h ^^ k) ?p) ! ?a) = (ramp_up ^^ k) (vol 0)"
      using ticks [of ?h k] by (simp add: eff vol_0)
    with that show ?thesis by (simp add: ramp_up_iter vol_20)
  qed
  ultimately show ?thesis
    using pre(2) fresh assms(2) by (simp add: eff)
qed

theorem fade_in_timer_never_cancelled_witness:
  "callback (timers (play preview_track True 0 (init 1)) ! 0) = FadeInTick 0 None
   \<and> active (timers ((fire 0 ^^ 25) (play preview_track True 0 (init 1))) ! 0)
   \<and> volume (elems ((fire 0 ^^ 25) (play preview_track True 0 (init 1))) ! 0) = 1"
proof -
  have "wf_page (init 1)" by (rule wf_init)
  moreover have "0 < length (comps (init 1))" "audio (comps (init 1) ! 0) = None"
    "truthy (preview_url preview_track)"
    by (simp_all add: init_def truthy_def preview_track_def)
  ultimately have "callback (timers (play preview_track True 0 (init 1)) ! length (timers (init 1))) =
           FadeInTick (length (elems (init 1))) (fadeIn (comps (init 1) ! 0))
    \<and> fadeIn (comps (init 1) ! 0) \<noteq> Some (length (timers (init 1)))
    \<and> fadeIn (comps (play preview_track True 0 (init 1)) ! 0) = Some (length (timers (init 1)))
    \<and> (\<forall>k. active (timers ((fire (length (timers (init 1))) ^^ k) (play preview_track True 0 (init 1)))
                  ! length (timers (init 1))))
    \<and> (\<forall>k\<ge>20. volume (elems ((fire (length (timers (init 1))) ^^ k) (play preview_track True 0 (init 1)))
                  ! length (elems (init 1))) = 1)"
    by (rule fade_in_timer_never_cancelled)
  moreover have "length (timers (init 1)) = 0" "length (elems (init 1)) = 0"
    "fadeIn (comps (init 1) ! 0) = None"
    by (simp_all add: init_def)
  ultimately show ?thesis by simp
qed

subsection \<open>Fading out\<close>

text \<open>
  Claim C3 says that \<open>stop\<close> schedules \<open>audio.pause()\<close> after \<open>(v / 0.05) * 100\<close>
  milliseconds, exactly the time of the ticks that the fade-out needs to reach volume 0.
  What the code does, for an element at the \<open>k\<close>-th step of the ramp: \<open>stop\<close> starts a
  100 ms interval timer that takes the volume down one step per tick, so it is above 0
  before the \<open>k\<close>-th tick and 0 from then on; and it schedules the pause after
  \<open>pause_delay (vol k)\<close>. That delay is \<open>100 k\<close> for all steps but 3, 6, 7, 12, 14 and
  19 (the volumes 0.15, 0.3, 0.35, 0.6, 0.7 and 0.95), where the division by 0.05 is
  inexact: there the delay is below \<open>100 k\<close> and its whole milliseconds are \<open>100 k - 1\<close>,
  so the pause is scheduled before the last tick.
\<close>

theorem fade_out_and_pause:
  assumes "wf_page s" and "i < length (comps s)" and "audio (comps s ! i) = Some a"
    and "volume (elems s ! a) = vol k" and "k \<le> 20"
  shows "timers (stop i s) ! length (timers s) =
           \<lparr>callback = FadeOutTick a (fadeOut (comps s ! i)), delay = 100,
            repeating = True, active = True\<rparr>
    \<and> timers (stop i s) ! Suc (length (timers s)) =
           \<lparr>callback = PauseTimeout a, delay = pause_delay (vol k),
            repeating = False, active = True\<rparr>
    \<and> (\<forall>j. volume (elems ((fire (length (timers s)) ^^ j) (stop i s)) ! a) = vol (k - j))
    \<and> (\<forall>j<k. 0 < vol (k - j))
    \<and> vol 0 = 0
    \<and> ((pause_delay (vol k) = 100 * of_nat k) = (k \<notin> {3, 6, 7, 12, 14, 19}))
    \<and> (k \<in> {3, 6, 7, 12, 14, 19} \<longrightarrow>
          pause_delay (vol k) < 100 * of_nat k \<and> \<lfloor>pause_delay (vol k)\<rfloor> = 100 * int k - 1)"
proof -
  have "volume (elems ((fire (length (timers s)) ^^ j) (stop i s)) ! a) = vol (k - j)" for j
    using stop_fade_out(4) [OF assms(1,2,3), of j] assms(4,5) by (simp add: ramp_down_iter)
  moreover have "0 < vol (k - j)" if "j < k" for j
  proof -
    from that assms(5) obtain m where "k - j = Suc m" "m < 20"
      by (cases "k - j") auto
    then show ?thesis by (simp add: vol_above_0)
  qed
  ultimately show ?thesis
    using stop_timers(2,3) [OF assms(2,3)] assms(4) pause_delay_exact [OF assms(5)]
      pause_delay_short [of k]
    by (simp add: vol_0)
qed

lemma funpow_3: "(f ^^ 3) x = f (f (f x))"
  by (simp add: numeral_3_eq_3)

lemma three_ticks:
  "wf_page ((fire 0 ^^ 3) (play preview_track True 0 (init 1)))"
  "0 < length (comps ((fire 0 ^^ 3) (play preview_track True 0 (init 1))))"
  "audio (comps ((fire 0 ^^ 3) (play preview_track True 0 (init 1))) ! 0) = Some 0"
  "volume (elems ((fire 0 ^^ 3) (play preview_track True 0 (init 1))) ! 0) = vol 3"
  "length (timers ((fire 0 ^^ 3) (play preview_track True 0 (init 1)))) = 1"
  by (simp_all add: funpow_3 page_eval fl_eval str_eval wf_page_def refs_ok_def vol_values)

theorem fade_out_and_pause_witness:
  "volume (elems ((fire 0 ^^ 3) (play preview_track True 0 (init 1))) ! 0) = vol 3
   \<and> timers (stop 0 ((fire 0 ^^ 3) (play preview_track True 0 (init 1)))) ! 2 =
        \<lparr>callback = PauseTimeout 0, delay = pause_delay (vol 3),
         repeating = False, active = True\<rparr>
   \<and> pause_delay (vol 3) = 5277655813324799 / 17592186044416
   \<and> pause_delay (vol 3) < 300
   \<and> \<lfloor>pause_delay (vol 3)\<rfloor> = 299
   \<and> volume (elems ((fire 1 ^^ 2) (stop 0 ((fire 0 ^^ 3) (play preview_track True 0 (init 1))))) ! 0)
        = vol 1
   \<and> 0 < vol 1
   \<and> volume (elems ((fire 1 ^^ 3) (stop 0 ((fire 0 ^^ 3) (play preview_track True 0 (init 1))))) ! 0)
        = 0"
proof -
  let ?s = "(fire 0 ^^ 3) (play preview_track True 0 (init 1))"
  have k: "(3::nat) \<le> 20" by simp
  note th = fade_out_and_pause [OF three_ticks(1,2,3,4) k, unfolded three_ticks(5)]
  from th have a: "timers (stop 0 ?s) ! Suc 1 =
      \<lparr>callback = PauseTimeout 0, delay = pause_delay (vol 3), repeating = False, active = True\<rparr>"
    by (elim conjE)
  from th have b: "\<forall>j. volume (elems ((fire 1 ^^ j) (stop 0 ?s)) ! 0) = vol (3 - j)"
    by (elim conjE)
  from th have c: "3 \<in> {3, 6, 7, 12, 14, 19::nat} \<longrightarrow>
      pause_delay (vol 3) < 100 * of_nat 3 \<and> \<lfloor>pause_delay (vol 3)\<rfloor> = 100 * int 3 - 1"
    by (elim conjE)
  from th have d: "\<forall>j<3. 0 < vol (3 - j)" by (elim conjE)
  from b have b2: "volume (elems ((fire 1 ^^ 2) (stop 0 ?s)) ! 0) = vol 1"
    and b3: "volume (elems ((fire 1 ^^ 3) (stop 0 ?s)) ! 0) = 0"
    using spec [OF b, of 2] spec [OF b, of 3] by (simp_all add: vol_0)
  from d have d1: "0 < vol 1" using spec [OF d, of 2] by simp
  from c have c1: "pause_delay (vol 3) < 300" "\<lfloor>pause_delay (vol 3)\<rfloor> = 299" by simp_all
  have e: "pause_delay (vol 3) = 5277655813324799 / 17592186044416"
    by (rule pause_delay_values)
  from a have a': "timers (stop 0 ?s) ! 2 =
      \<lparr>callback = PauseTimeout 0, delay = pause_delay (vol 3), repeating = False, active = True\<rparr>"
    by (simp add: numeral_2_eq_2)
  from three_ticks(4) a' e c1 b2 d1 b3 show ?thesis by blast
qed

subsection \<open>Hovering again\<close>

text \<open>
  Claim C10. In a well-formed page where component \<open>i\<close> holds a playing element \<open>a\<close>,
  \<open>stop\<close> sets the component's audio reference to \<open>null\<close> at once, while the pause
  timeout stays pending and \<open>a\<close> keeps playing through any number of fade-out ticks.
  Hovering again in any such state makes \<open>play\<close> create and start a new element, with
  \<open>a\<close> still playing. A page with two audible elements for the same track is reached
  from the initial page: hover, three fade-in ticks, leave, hover again, one fade-out tick
  of the first element, one fade-in tick of the second. (With the first hover at time 0,
  the row left at 320 ms and entered again at 350 ms, these ticks are due at 100, 200,
  300, 420 and 450 ms, and the pause of the first element at 619 ms.)
\<close>

theorem rehover_second_playback:
  assumes "wf_page s" and "i < length (comps s)" and "audio (comps s ! i) = Some a"
    and "\<not> paused (elems s ! a)" and "truthy (preview_url t)"
  shows "audio (comps (stop i s) ! i) = None
    \<and> (\<forall>j. timers ((fire (length (timers s)) ^^ j) (stop i s)) ! Suc (length (timers s)) =
            \<lparr>callback = PauseTimeout a, delay = pause_delay (volume (elems s ! a)),
             repeating = False, active = True\<rparr>)
    \<and> (\<forall>j. \<not> paused (elems ((fire (length (timers s)) ^^ j) (stop i s)) ! a))
    \<and> (\<forall>j. elems (play t True i ((fire (length (timers s)) ^^ j) (stop i s))) ! length (elems s) =
            \<lparr>src = the (preview_url t), volume = 0, paused = False\<rparr>
          \<and> length (elems (play t True i ((fire (length (timers s)) ^^ j) (stop i s)))) =
              Suc (length (elems s))
          \<and> audio (comps (play t True i ((fire (length (timers s)) ^^ j) (stop i s))) ! i) =
              Some (length (elems s))
          \<and> \<not> paused (elems (play t True i ((fire (length (timers s)) ^^ j) (stop i s))) ! a))
    \<and> a < length (elems s)
    \<and> audible (run [preview_track]
          [MouseOver 0 True, Fire 0, Fire 0, Fire 0, MouseLeave 0, MouseOver 0 True, Fire 1, Fire 3]
          (init 1)) 0
    \<and> audible (run [preview_track]
          [MouseOver 0 True, Fire 0, Fire 0, Fire 0, MouseLeave 0, MouseOver 0 True, Fire 1, Fire 3]
          (init 1)) 1"
proof -
  let ?h = "length (timers s)"
  have a: "a < length (elems s)"
    using assms(1,2,3) by (rule audio_in_range)
  have none: "audio (comps (stop i s) ! i) = None"
    using assms(2) by (simp add: stop_effect(1) [OF assms(2,3)])
  have len: "length (comps (stop i s)) = length (comps s)"
    by (simp add: stop_effect(1) [OF assms(2,3)])
  note after = stop_fade_out [OF assms(1,2,3)]
  have replay: "elems (play t True i ((fire ?h ^^ j) (stop i s))) ! length (elems s) =
            \<lparr>src = the (preview_url t), volume = 0, paused = False\<rparr>
          \<and> length (elems (play t True i ((fire ?h ^^ j) (stop i s)))) = Suc (length (elems s))
          \<and> audio (comps (play t True i ((fire ?h ^^ j) (stop i s))) ! i) = Some (length (elems s))
          \<and> \<not> paused (elems (play t True i ((fire ?h ^^ j) (stop i s))) ! a)" for j
  proof -
    let ?s1 = "(fire ?h ^^ j) (stop i s)"
    have c: "comps ?s1 = comps (stop i s)" by (rule after(6))
    have l: "length (elems ?s1) = length (elems s)" by (rule after(2))
    have p: "\<not> paused (elems ?s1 ! a)" using after(5) [of j a] assms(4) by simp
    have i: "i < length (comps ?s1)" "audio (comps ?s1 ! i) = None"
      using assms(2) none len by (simp_all add: c)
    note eff = play_effect [OF i assms(5), of True]
    show ?thesis using a l p i(1) by (simp add: eff nth_append)
  qed
  have "\<not> paused (elems ((fire ?h ^^ j) (stop i s)) ! a)" for j
    using after(5) [of j a] assms(4) by simp
  with none after(1) replay a two_audible show ?thesis by blast
qed

lemma hovered:
  "wf_page (play preview_track True 0 (init 1))"
  "0 < length (comps (play preview_track True 0 (init 1)))"
  "audio (comps (play preview_track True 0 (init 1)) ! 0) = Some 0"
  "\<not> paused (elems (play preview_track True 0 (init 1)) ! 0)"
  "truthy (preview_url preview_track)"
  "length (timers (play preview_track True 0 (init 1))) = 1"
  "length (elems (play preview_track True 0 (init 1))) = 1"
  by (simp_all add: page_eval wf_page_def refs_ok_def)

theorem rehover_second_playback_witness:
  "audio (comps (stop 0 (play preview_track True 0 (init 1))) ! 0) = None
   \<and> audio (comps (play preview_track True 0
        ((fire 1 ^^ 2) (stop 0 (play preview_track True 0 (init 1))))) ! 0) = Some 1
   \<and> \<not> paused (elems (play preview_track True 0
        ((fire 1 ^^ 2) (stop 0 (play preview_track True 0 (init 1))))) ! 0)
   \<and> \<not> paused (elems (play preview_track True 0
        ((fire 1 ^^ 2) (stop 0 (play preview_track True 0 (init 1))))) ! 1)"
proof -
  note th = rehover_second_playback [OF hovered(1-5), unfolded hovered(6,7)]
  from th have a: "audio (comps (stop 0 (play preview_track True 0 (init 1))) ! 0) = None"
    by (elim conjE)
  from th have "\<forall>j. elems (play preview_track True 0
          ((fire 1 ^^ j) (stop 0 (play preview_track True 0 (init 1))))) ! 1 =
            \<lparr>src = the (preview_url preview_track), volume = 0, paused = False\<rparr>
          \<and> length (elems (play preview_track True 0
                ((fire 1 ^^ j) (stop 0 (play preview_track True 0 (init 1)))))) = Suc 1
          \<and> audio (comps (play preview_track True 0
                ((fire 1 ^^ j) (stop 0 (play preview_track True 0 (init 1))))) ! 0) = Some 1
          \<and> \<not> paused (elems (play preview_track True 0
                ((fire 1 ^^ j) (stop 0 (play preview_track True 0 (init 1))))) ! 0)"
    by (elim conjE)
  from spec [OF this, of 2] a show ?thesis by simp
qed

section \<open>Notifications\<close>

lemma toast_distinct [simp]:
  "instruction \<noteq> success" "success \<noteq> instruction"
  "ToastError m \<noteq> instruction" "ToastError m \<noteq> success"
  "instruction \<noteq> ToastError m" "success \<noteq> ToastError m"
  by (simp_all add: instruction_def success_def)

lemma flag_after_append:
  "flag_after b (ts @ [t]) =
     (if t = instruction then True else if t = success then False else flag_after b ts)"
  by (induction ts arbitrary: b) simp_all

lemma once_from_append:
  "once_from b (ts @ [t]) \<longleftrightarrow> once_from b ts \<and> (t = instruction \<longrightarrow> \<not> flag_after b ts)"
  by (induction ts arbitrary: b) auto

lemma settle_effect:
  assumes "p < length (promises s)" and "\<not> settled (promises s ! p)"
  shows "includes_str m autoplay_phrase \<Longrightarrow>
           toasts (settle p (Rejected m) s) =
             toasts s @ (if notified (promises s ! p) then [] else [instruction])
           \<and> interactableNotified (settle p (Rejected m) s) =
               (\<not> notified (promises s ! p) \<or> interactableNotified s)"
    and "\<not> includes_str m autoplay_phrase \<Longrightarrow> includes_str m pause_phrase \<Longrightarrow>
           toasts (settle p (Rejected m) s) = toasts s
           \<and> interactableNotified (settle p (Rejected m) s) = interactableNotified s"
    and "\<not> includes_str m autoplay_phrase \<Longrightarrow> \<not> includes_str m pause_phrase \<Longrightarrow>
           toasts (settle p (Rejected m) s) = toasts s @ [ToastError m]
           \<and> interactableNotified (settle p (Rejected m) s) = interactableNotified s"
    and "comps (settle p (Rejected m) s) = comps s"
    and "elems (settle p result s) = elems s"
    and "timers (settle p result s) = timers s"
    and "toasts (settle p Fulfilled s) =
           toasts s @ (if notified (promises s ! p) then [success] else [])
         \<and> interactableNotified (settle p Fulfilled s) =
             (\<not> notified (promises s ! p) \<and> interactableNotified s)"
  using assms
  by (auto simp add: settle_def Let_def set_comp_def split: outcome.splits)

lemma settle_spent:
  "\<not> (p < length (promises s) \<and> \<not> settled (promises s ! p)) \<Longrightarrow> settle p result s = s"
  unfolding settle_def by (simp only: if_False)

lemma play_quiet:
  "toasts (play t allowed i s) = toasts s"
  "interactableNotified (play t allowed i s) = interactableNotified s"
  by (simp_all add: play_def Let_def set_comp_def setInterval_def)

lemma stop_quiet:
  "toasts (stop i s) = toasts s"
  "interactableNotified (stop i s) = interactableNotified s"
  by (simp_all add: stop_def Let_def set_comp_def setInterval_def setTimeout_def
      clearInterval_def split: option.splits)

lemma fire_quiet:
  "toasts (fire h s) = toasts s"
  "interactableNotified (fire h s) = interactableNotified s"
  by (simp_all add: fire_def Let_def fade_in_tick_def fade_out_tick_def set_volume_def
      clearInterval_def pause_def split: callback.splits option.splits)

lemma accounted_step:
  assumes "accounted s" and "prompt s e"
  shows "accounted (step tracks s e)"
proof (cases e)
  case (MouseOver i allowed)
  with assms(1) show ?thesis by (simp add: accounted_def play_quiet)
next
  case (MouseLeave i)
  with assms(1) show ?thesis by (simp add: accounted_def stop_quiet)
next
  case (Fire h)
  with assms(1) show ?thesis by (simp add: accounted_def fire_quiet)
next
  case (Settle p result)
  show ?thesis
  proof (cases "p < length (promises s) \<and> \<not> settled (promises s ! p)")
    case False
    with Settle assms(1) show ?thesis by (simp add: settle_spent)
  next
    case True
    then have pend: "p < length (promises s)" "\<not> settled (promises s ! p)" by simp_all
    from True Settle assms(2) have fresh: "notified (promises s ! p) = interactableNotified s"
      by simp
    show ?thesis
    proof (cases result)
      case Fulfilled
      with Settle assms(1) fresh settle_effect(7) [OF pend] show ?thesis
        by (auto simp add: accounted_def once_from_append flag_after_append)
    next
      case (Rejected m)
      with Settle assms(1) fresh settle_effect(1,2,3) [OF pend, of m] show ?thesis
        by (cases "includes_str m autoplay_phrase"; cases "includes_str m pause_phrase")
          (auto simp add: accounted_def once_from_append flag_after_append)
    qed
  qed
qed

lemma accounted_run:
  "accounted s \<Longrightarrow> prompt_run tracks s evs \<Longrightarrow> accounted (run tracks evs s)"
proof (induction evs arbitrary: s)
  case Nil
  then show ?case by (simp add: run_def)
next
  case (Cons e evs)
  from Cons.prems have "accounted (step tracks s e)" "prompt_run tracks (step tracks s e) evs"
    by (simp_all add: accounted_step)
  from Cons.IH [OF this] show ?case by (simp add: run_def)
qed

lemma accounted_init: "accounted (init n)"
  by (simp add: accounted_def init_def)

text \<open>
  When every promise is settled while \<open>interactableNotified\<close> still has the value that its
  \<open>play()\<close> read, no instruction toast follows another without a success toast in between.
\<close>

lemma prompt_runs_once:
  "prompt_run tracks (init n) evs \<Longrightarrow> once_from False (toasts (run tracks evs (init n)))"
  using accounted_run [OF accounted_init] by (simp add: accounted_def)





end
